theory Spec2Isabelle
  imports Main "HOL-Library.Word"
begin

unbundle bit_operations_syntax

section \<open>Embeditor: the row buffer, the highlighter and the viewport\<close>

text \<open>
  A shallow embedding of \<^verbatim>\<open>Editor.cc\<close> and \<^verbatim>\<open>Editor.h\<close>. C \<^verbatim>\<open>int\<close> fields are
  modelled as \<^typ>\<open>int\<close> (no row or file in reach of the editor comes near \<open>2^31\<close>
  bytes, so wrap-around is left out), \<^verbatim>\<open>std::string\<close> as \<^typ>\<open>string\<close> (a list of
  bytes, NUL included), \<^verbatim>\<open>std::vector\<close> as a list. \<^verbatim>\<open>vector::at\<close> and
  \<^verbatim>\<open>string::at\<close> throw \<^verbatim>\<open>std::out_of_range\<close>; nothing in the program catches it,
  so a throw ends the run and is the value \<open>Inl OutOfRange\<close> here.
\<close>

subsection \<open>Data model (Editor.h)\<close>

datatype Highlight =
  HL_NORMAL | HL_COMMENT | HL_MLCOMMENT | HL_KEYWORD1 | HL_KEYWORD2
  | HL_STRING | HL_NUMBER | HL_MATCH

text \<open>The field \<^verbatim>\<open>size\<close> of a row is called \<open>size_row\<close>: \<open>size\<close> is taken in HOL.\<close>

record Row =
  idx :: int
  size_row :: int
  rsize :: int
  chars :: string
  render :: string
  hl :: "Highlight list"
  hl_open_comment :: bool

record Syntax =
  filetype :: string
  filematch :: "string list"
  keywords_syn :: "string list"
  singleLineCommentStart :: string
  multiLineCommentStart :: string
  multilineCommentEnd :: string
  flags :: int

definition HIGHLIGHT_NUMBERS :: int where "HIGHLIGHT_NUMBERS = 1"
definition HIGHLIGHT_STRINGS :: int where "HIGHLIGHT_STRINGS = 2"

text \<open>
  \<open>syntax_hl\<close> is the pointer \<^verbatim>\<open>_syntax\<close> into the static table \<^verbatim>\<open>HLDB\<close>, \<open>None\<close> for
  \<^verbatim>\<open>nullptr\<close>; the table is never written, so the pointer is modelled by the entry.
\<close>

record Editor =
  cx :: int
  cy :: int
  rx :: int
  rowOffset :: int
  colOffset :: int
  screenRows :: int
  screenCols :: int
  dirty :: int
  filename :: string
  syntax_hl :: "Syntax option"
  rows :: "Row list"
  tabStop :: int

datatype error = OutOfRange | OutOfFuel | WaitingForKey

text \<open>
  \<open>OutOfRange\<close> is the uncaught \<^verbatim>\<open>std::out_of_range\<close>. \<open>OutOfFuel\<close> is not an outcome of
  the program: it is what the model of the recursive \<^verbatim>\<open>_updateSyntax\<close> returns when
  the recursion depth it was given is used up. \<open>WaitingForKey\<close> ends a run of the
  model whose list of keys is used up while \<^verbatim>\<open>_readKey\<close> waits for the next one.
\<close>

definition bindE :: "error + 'a \<Rightarrow> ('a \<Rightarrow> error + 'b) \<Rightarrow> error + 'b" where
  "bindE m f = (case m of Inl e \<Rightarrow> Inl e | Inr x \<Rightarrow> f x)"

definition at :: "'a list \<Rightarrow> int \<Rightarrow> error + 'a" where
  "at xs i = (if 0 \<le> i \<and> i < int (length xs) then Inr (xs ! nat i) else Inl OutOfRange)"

text \<open>
  C's \<^verbatim>\<open>%\<close> truncates towards zero. A zero divisor is undefined in C; every theorem
  below that reaches \<open>c_rem\<close> assumes a positive tab stop.
\<close>

definition c_rem :: "int \<Rightarrow> int \<Rightarrow> int" where
  "c_rem a b = sgn a * (\<bar>a\<bar> mod \<bar>b\<bar>)"

definition TAB :: char where "TAB = CHR 0x09"

definition Editor_init :: Editor where
  "Editor_init = \<lparr> cx = 0, cy = 0, rx = 0, rowOffset = 0, colOffset = 0,
     screenRows = 25, screenCols = 80, dirty = 0, filename = [], syntax_hl = None,
     rows = [], tabStop = 4 \<rparr>"

subsection \<open>Coordinate mapping: \<^verbatim>\<open>_rowCxToRx\<close>, \<^verbatim>\<open>_rowRxToCx\<close>\<close>

text \<open>One turn of the body shared by both loops: a tab moves to the next tab stop.\<close>

definition advance_rx :: "int \<Rightarrow> int \<Rightarrow> char \<Rightarrow> int" where
  "advance_rx ts r c = (if c = TAB then r + ((ts - 1) - c_rem r ts) else r) + 1"

function cxToRx_loop :: "int \<Rightarrow> string \<Rightarrow> int \<Rightarrow> int \<Rightarrow> int \<Rightarrow> error + int" where
  "cxToRx_loop ts cs cx' j r =
     (if j < cx' then
        (case at cs j of
           Inl e \<Rightarrow> Inl e
         | Inr c \<Rightarrow> cxToRx_loop ts cs cx' (j + 1) (advance_rx ts r c))
      else Inr r)"
  by pat_completeness auto
termination
  by (relation "measure (\<lambda>(ts, cs, cx', j, r). nat (cx' - j))") auto

declare cxToRx_loop.simps [simp del]

definition rowCxToRx :: "Editor \<Rightarrow> int \<Rightarrow> int \<Rightarrow> error + int" where
  "rowCxToRx ed rowId cx' =
     bindE (at (rows ed) rowId) (\<lambda>row. cxToRx_loop (tabStop ed) (chars row) cx' 0 0)"

function rxToCx_loop :: "int \<Rightarrow> string \<Rightarrow> int \<Rightarrow> int \<Rightarrow> int \<Rightarrow> int \<Rightarrow> error + int" where
  "rxToCx_loop ts cs sz rx' cx' cur_rx =
     (if cx' < sz then
        (case at cs cx' of
           Inl e \<Rightarrow> Inl e
         | Inr c \<Rightarrow>
             (let cur = advance_rx ts cur_rx c
              in if cur > rx' then Inr cx'
                 else rxToCx_loop ts cs sz rx' (cx' + 1) cur))
      else Inr cx')"
  by pat_completeness auto
termination
  by (relation "measure (\<lambda>(ts, cs, sz, rx', cx', cur_rx). nat (sz - cx'))") auto

declare rxToCx_loop.simps [simp del]

definition rowRxToCx :: "Editor \<Rightarrow> int \<Rightarrow> int \<Rightarrow> error + int" where
  "rowRxToCx ed rowId rx' =
     bindE (at (rows ed) rowId)
       (\<lambda>row. rxToCx_loop (tabStop ed) (chars row) (size_row row) rx' 0 0)"

subsection \<open>Scrolling: \<^verbatim>\<open>_scroll\<close>\<close>

text \<open>
  \<^verbatim>\<open>_cy < _rows.size()\<close> compares an \<^verbatim>\<open>int\<close> with a \<^verbatim>\<open>size_t\<close>: the \<^verbatim>\<open>int\<close> is
  converted to unsigned, so a negative value is never below the size.
\<close>

definition lt_size :: "int \<Rightarrow> 'a list \<Rightarrow> bool" where
  "lt_size i xs = (0 \<le> i \<and> i < int (length xs))"

definition scroll :: "Editor \<Rightarrow> error + Editor" where
  "scroll ed =
     bindE (if lt_size (cy ed) (rows ed) then rowCxToRx ed (cy ed) (cx ed) else Inr 0)
       (\<lambda>r.
          let e1 = ed\<lparr>rx := r\<rparr>;
              e2 = (if cy e1 < rowOffset e1 then e1\<lparr>rowOffset := cy e1\<rparr> else e1);
              e3 = (if cy e2 \<ge> rowOffset e2 + screenRows e2
                    then e2\<lparr>rowOffset := cy e2 - screenRows e2 + 1\<rparr> else e2);
              e4 = (if rx e3 < colOffset e3 then e3\<lparr>colOffset := rx e3\<rparr> else e3);
              e5 = (if rx e4 \<ge> colOffset e4 + screenCols e4
                    then e4\<lparr>colOffset := rx e4 - screenCols e4 + 1\<rparr> else e4)
          in Inr e5)"

subsection \<open>Separators and character classes\<close>

definition NUL :: char where "NUL = CHR 0x00"

text \<open>\<^verbatim>\<open>isspace\<close> and \<^verbatim>\<open>isdigit\<close> in the C locale.\<close>

definition isspace :: "char \<Rightarrow> bool" where
  "isspace c = (c = CHR '' '' \<or> c = CHR 0x09 \<or> c = CHR 0x0A \<or> c = CHR 0x0B
                \<or> c = CHR 0x0C \<or> c = CHR 0x0D)"

definition isdigit :: "char \<Rightarrow> bool" where
  "isdigit c = (c \<in> set ''0123456789'')"

text \<open>\<^verbatim>\<open>strchr\<close> also finds the terminating NUL of its first argument.\<close>

definition isSeparator :: "char \<Rightarrow> bool" where
  "isSeparator c = (isspace c \<or> c = NUL \<or> c \<in> set '',.()+-/*=~%<>[];'')"

subsection \<open>The highlighter: one scan of a row (\<^verbatim>\<open>_updateSyntax\<close>, the \<^verbatim>\<open>while\<close> loop)\<close>

text \<open>
  The locals of the scan. \<open>inString\<close> is the C \<^verbatim>\<open>int\<close> that is \<open>0\<close> outside a string and
  the opening quote inside one; \<open>shl\<close> is \<^verbatim>\<open>row.hl\<close> while the scan writes it.
\<close>

record Scan =
  pos :: nat
  prevSep :: bool
  inString :: "char option"
  inComment :: bool
  shl :: "Highlight list"

datatype step = Break Scan | Next Scan | Throw

definition substr :: "string \<Rightarrow> nat \<Rightarrow> nat \<Rightarrow> string" where
  "substr s i n = take n (drop i s)"

text \<open>
  \<^verbatim>\<open>memset(row.hl.data() + i, v, n)\<close>. The source only reaches it with \<open>i + n\<close> inside the
  vector (the bytes it paints were just compared with a delimiter or a keyword).
\<close>

definition memset :: "Highlight list \<Rightarrow> nat \<Rightarrow> Highlight \<Rightarrow> nat \<Rightarrow> Highlight list" where
  "memset h i v n = take i h @ replicate n v @ drop (i + n) h"

text \<open>\<^verbatim>\<open>row.render[k]\<close>: \<^verbatim>\<open>operator[]\<close> at \<open>k = size\<close> is the terminating NUL.\<close>

definition byte_at :: "string \<Rightarrow> nat \<Rightarrow> char" where
  "byte_at s k = (if k < length s then s ! k else NUL)"

definition nth_opt :: "'a list \<Rightarrow> nat \<Rightarrow> 'a option" where
  "nth_opt xs j = (if j < length xs then Some (xs ! j) else None)"

text \<open>
  The keyword loop. \<open>kw_len k\<close> is \<^verbatim>\<open>klen\<close> after the marker \<^verbatim>\<open>|\<close> is taken off, and
  \<open>kw_test\<close> is \<^verbatim>\<open>foundKW && isSeparator(row.render[i + klen])\<close>. For an empty keyword
  the source reads \<^verbatim>\<open>keywords[j][-1]\<close>; the table has no empty keyword, and the model
  takes \<open>kw2\<close> to be false there.
\<close>

definition kw2 :: "string \<Rightarrow> bool" where
  "kw2 k = (k \<noteq> [] \<and> last k = CHR ''|'')"

definition kw_len :: "string \<Rightarrow> nat" where
  "kw_len k = (if kw2 k then length k - 1 else length k)"

definition kw_test :: "string \<Rightarrow> nat \<Rightarrow> string \<Rightarrow> bool" where
  "kw_test rnd i k =
     (substr rnd i (kw_len k) = substr k 0 (kw_len k)
      \<and> isSeparator (byte_at rnd (i + kw_len k)))"

text \<open>
  \<open>kw_loop rnd ks j st\<close> runs the \<^verbatim>\<open>for\<close> loop from index \<open>j\<close>, \<open>ks\<close> being the keywords
  from \<open>j\<close> on, and returns the value of \<open>j\<close> when the loop is left.
\<close>

fun kw_loop :: "string \<Rightarrow> string list \<Rightarrow> nat \<Rightarrow> Scan \<Rightarrow> nat \<times> Scan" where
  "kw_loop rnd [] j st = (j, st)"
| "kw_loop rnd (k # ks) j st =
     (if kw_test rnd (pos st) k
      then (j, st\<lparr>shl := memset (shl st) (pos st)
                           (if kw2 k then HL_KEYWORD2 else HL_KEYWORD1) (kw_len k),
                 pos := pos st + kw_len k\<rparr>)
      else kw_loop rnd ks (j + 1) st)"

text \<open>
  The test after the loop, \<^verbatim>\<open>keywords[j] != ""\<close>. When no keyword matched, \<open>j\<close> is the
  size of the vector and \<^verbatim>\<open>keywords[j]\<close> reads one element past its end, which C++
  leaves undefined. \<open>oob\<close> stands for what that read compares as: \<open>True\<close> when the bytes
  behind the vector do not look like an empty string.
\<close>

definition kw_nonempty :: "bool \<Rightarrow> string list \<Rightarrow> nat \<Rightarrow> bool" where
  "kw_nonempty oob kws j = (case nth_opt kws j of Some k \<Rightarrow> k \<noteq> [] | None \<Rightarrow> oob)"

text \<open>The last two lines of the loop body.\<close>

definition normal_step :: "char \<Rightarrow> Scan \<Rightarrow> step" where
  "normal_step c st = Next (st\<lparr>prevSep := isSeparator c, pos := pos st + 1\<rparr>)"

text \<open>
  The branches in front of the keyword test, in the order of the source; \<open>None\<close> when
  the byte falls through all of them.
\<close>

definition br_scs :: "Syntax \<Rightarrow> string \<Rightarrow> int \<Rightarrow> Scan \<Rightarrow> step option" where
  "br_scs syn rnd n st =
     (let scs = singleLineCommentStart syn
      in if scs \<noteq> [] \<and> inString st = None \<and> \<not> inComment st
            \<and> substr rnd (pos st) (length scs) = scs
         then Some (Break (st\<lparr>shl := memset (shl st) (pos st) HL_COMMENT
                                       (nat (n - int (pos st)))\<rparr>))
         else None)"

definition br_mlc :: "Syntax \<Rightarrow> string \<Rightarrow> Scan \<Rightarrow> step option" where
  "br_mlc syn rnd st =
     (let mcs = multiLineCommentStart syn; mce = multilineCommentEnd syn; i = pos st
      in if mcs \<noteq> [] \<and> mce \<noteq> [] \<and> inString st = None then
           (if inComment st then
              (if substr rnd i (length mce) = mce
               then Some (Next (st\<lparr>shl := memset ((shl st)[i := HL_MLCOMMENT]) i
                                            HL_MLCOMMENT (length mce),
                                  pos := i + length mce,
                                  inComment := False, prevSep := True\<rparr>))
               else Some (Next (st\<lparr>shl := (shl st)[i := HL_MLCOMMENT], pos := i + 1\<rparr>)))
            else if substr rnd i (length mcs) = mcs
            then Some (Next (st\<lparr>shl := memset (shl st) i HL_MLCOMMENT (length mcs),
                               pos := i + length mcs, inComment := True\<rparr>))
            else None)
         else None)"

definition br_str :: "Syntax \<Rightarrow> int \<Rightarrow> char \<Rightarrow> Scan \<Rightarrow> step option" where
  "br_str syn n c st =
     (let i = pos st
      in if flags syn AND HIGHLIGHT_STRINGS \<noteq> 0 then
           (case inString st of
              Some q \<Rightarrow>
                (if c = CHR 0x5C \<and> int i + 1 < n
                 then Some (Next (st\<lparr>shl := (shl st)[i := HL_STRING, i + 1 := HL_STRING],
                                    pos := i + 2\<rparr>))
                 else Some (Next (st\<lparr>shl := (shl st)[i := HL_STRING],
                                    inString := (if c = q then None else Some q),
                                    pos := i + 1, prevSep := True\<rparr>)))
            | None \<Rightarrow>
                (if c = CHR 0x22 \<or> c = CHR 0x27
                 then Some (Next (st\<lparr>inString := Some c, shl := (shl st)[i := HL_STRING],
                                    pos := i + 1\<rparr>))
                 else None))
         else None)"

definition br_num :: "Syntax \<Rightarrow> char \<Rightarrow> Scan \<Rightarrow> step option" where
  "br_num syn c st =
     (let i = pos st;
          prev_hl = (if i > 0 then shl st ! (i - 1) else HL_NORMAL);
          prevNum = (prevSep st \<or> prev_hl = HL_NUMBER);
          prevHl = (c = CHR ''.'' \<and> prev_hl = HL_NUMBER)
      in if flags syn AND HIGHLIGHT_NUMBERS \<noteq> 0 \<and> ((isdigit c \<and> prevNum) \<or> prevHl)
         then Some (Next (st\<lparr>shl := (shl st)[i := HL_NUMBER], pos := i + 1,
                            prevSep := False\<rparr>))
         else None)"

definition pre_keyword :: "Syntax \<Rightarrow> string \<Rightarrow> int \<Rightarrow> char \<Rightarrow> Scan \<Rightarrow> step option" where
  "pre_keyword syn rnd n c st =
     (case br_scs syn rnd n st of Some r \<Rightarrow> Some r | None \<Rightarrow>
      (case br_mlc syn rnd st of Some r \<Rightarrow> Some r | None \<Rightarrow>
       (case br_str syn n c st of Some r \<Rightarrow> Some r | None \<Rightarrow>
        br_num syn c st)))"

definition br_kw :: "bool \<Rightarrow> Syntax \<Rightarrow> string \<Rightarrow> char \<Rightarrow> Scan \<Rightarrow> step" where
  "br_kw oob syn rnd c st =
     (if prevSep st then
        (case kw_loop rnd (keywords_syn syn) 0 st of
           (j, st') \<Rightarrow>
             if kw_nonempty oob (keywords_syn syn) j
             then Next (st'\<lparr>prevSep := False\<rparr>)
             else normal_step c st')
      else normal_step c st)"

text \<open>One turn of the \<^verbatim>\<open>while (i < row.rsize)\<close> loop, entered with \<open>i < rsize\<close>.\<close>

definition scan_step :: "bool \<Rightarrow> Syntax \<Rightarrow> string \<Rightarrow> int \<Rightarrow> Scan \<Rightarrow> step" where
  "scan_step oob syn rnd n st =
     (case at rnd (int (pos st)) of
        Inl e \<Rightarrow> Throw
      | Inr c \<Rightarrow>
          (case pre_keyword syn rnd n c st of
             Some r \<Rightarrow> r
           | None \<Rightarrow> br_kw oob syn rnd c st))"

definition scan_measure :: "int \<Rightarrow> Scan \<Rightarrow> nat" where
  "scan_measure n st = 2 * nat (n - int (pos st)) + (if prevSep st then 1 else 0)"

text \<open>Every turn that goes round again makes \<open>scan_measure\<close> smaller.\<close>

lemma kw_loop_pos:
  "kw_loop rnd ks j st = (j', st') \<Longrightarrow> pos st \<le> pos st' \<and> prevSep st' = prevSep st"
  by (induction ks arbitrary: j) (auto split: if_splits)

lemma measure_advance:
  "int (pos st) < n \<Longrightarrow> pos st < pos st' \<Longrightarrow> scan_measure n st' < scan_measure n st"
  unfolding scan_measure_def by (simp split: if_splits) linarith

lemma br_scs_no_Next: "br_scs syn rnd n st \<noteq> Some (Next st')"
  by (simp add: br_scs_def Let_def)

lemma br_mlc_advances: "br_mlc syn rnd st = Some (Next st') \<Longrightarrow> pos st < pos st'"
  by (auto simp: br_mlc_def Let_def split: if_splits)

lemma br_str_advances: "br_str syn n c st = Some (Next st') \<Longrightarrow> pos st < pos st'"
  by (auto simp: br_str_def Let_def split: if_splits option.splits)

lemma br_num_advances: "br_num syn c st = Some (Next st') \<Longrightarrow> pos st < pos st'"
  by (auto simp: br_num_def Let_def split: if_splits)

lemma pre_keyword_advances:
  "pre_keyword syn rnd n c st = Some (Next st') \<Longrightarrow> pos st < pos st'"
  unfolding pre_keyword_def
  by (auto split: option.splits
      dest: br_mlc_advances br_str_advances br_num_advances simp: br_scs_no_Next)

lemma br_kw_decreases:
  "br_kw oob syn rnd c st = Next st' \<Longrightarrow> int (pos st) < n \<Longrightarrow>
     scan_measure n st' < scan_measure n st"
  by (auto simp: br_kw_def normal_step_def scan_measure_def
      split: if_splits prod.splits dest!: kw_loop_pos)

lemma scan_step_decreases:
  "scan_step oob syn rnd n st = Next st' \<Longrightarrow> int (pos st) < n \<Longrightarrow>
     scan_measure n st' < scan_measure n st"
  by (auto simp: scan_step_def split: sum.splits option.splits
      dest: pre_keyword_advances br_kw_decreases measure_advance)

function scan_loop :: "bool \<Rightarrow> Syntax \<Rightarrow> string \<Rightarrow> int \<Rightarrow> Scan \<Rightarrow> error + Scan" where
  "scan_loop oob syn rnd n st =
     (if int (pos st) < n then
        (case scan_step oob syn rnd n st of
           Break st' \<Rightarrow> Inr st'
         | Next st' \<Rightarrow> scan_loop oob syn rnd n st'
         | Throw \<Rightarrow> Inl OutOfRange)
      else Inr st)"
  by pat_completeness auto
termination
  by (relation "measure (\<lambda>(oob, syn, rnd, n, st). scan_measure n st)")
     (auto dest: scan_step_decreases)

declare scan_loop.simps [simp del]

text \<open>The number of turns the loop makes: the same recursion, counting.\<close>

function scan_turns :: "bool \<Rightarrow> Syntax \<Rightarrow> string \<Rightarrow> int \<Rightarrow> Scan \<Rightarrow> nat" where
  "scan_turns oob syn rnd n st =
     (if int (pos st) < n then
        (case scan_step oob syn rnd n st of
           Next st' \<Rightarrow> Suc (scan_turns oob syn rnd n st')
         | _ \<Rightarrow> 1)
      else 0)"
  by pat_completeness auto
termination
  by (relation "measure (\<lambda>(oob, syn, rnd, n, st). scan_measure n st)")
     (auto dest: scan_step_decreases)

declare scan_turns.simps [simp del]

subsection \<open>\<^verbatim>\<open>_updateSyntax\<close>: the scan of a row and the cascade to the next one\<close>

definition set_row :: "Editor \<Rightarrow> nat \<Rightarrow> Row \<Rightarrow> Editor" where
  "set_row ed p r = ed\<lparr>rows := (rows ed)[p := r]\<rparr>"

text \<open>
  \<^verbatim>\<open>_updateSyntax(Row& row)\<close> takes a reference to an element of \<^verbatim>\<open>_rows\<close>; \<open>p\<close> is the
  position of that element (every caller gets the reference from \<^verbatim>\<open>_rows.at\<close>, so
  \<open>p\<close> is inside the vector). The neighbours are found through \<^verbatim>\<open>row.idx\<close>, not
  through \<open>p\<close>. \<open>syntax_pass\<close> is the body of one call; its second result is the
  position of the row the call recurses on, if it does. The first argument of
  \<open>updateSyntax\<close> bounds the depth of the recursion.
\<close>

definition scan_init :: "bool \<Rightarrow> int \<Rightarrow> Scan" where
  "scan_init inC n = \<lparr>pos = 0, prevSep = True, inString = None, inComment = inC,
                       shl = replicate (nat n) HL_NORMAL\<rparr>"

definition syntax_pass :: "bool \<Rightarrow> Editor \<Rightarrow> nat \<Rightarrow> error + Editor \<times> nat option" where
  "syntax_pass oob ed p =
     (let row = rows ed ! p;
          h0 = replicate (nat (rsize row)) HL_NORMAL
      in case syntax_hl ed of
           None \<Rightarrow> Inr (set_row ed p (row\<lparr>hl := h0\<rparr>), None)
         | Some syn \<Rightarrow>
             bindE (if idx row > 0
                    then bindE (at (rows ed) (idx row - 1)) (\<lambda>r. Inr (hl_open_comment r))
                    else Inr False)
               (\<lambda>inC.
                  bindE (scan_loop oob syn (render row) (rsize row) (scan_init inC (rsize row)))
                    (\<lambda>st.
                       let changed = (hl_open_comment row \<noteq> inComment st);
                           ed' = set_row ed p
                                   (row\<lparr>hl := shl st, hl_open_comment := inComment st\<rparr>)
                       in Inr (ed', if changed \<and> lt_size (idx row + 1) (rows ed')
                                    then Some (nat (idx row + 1)) else None))))"

fun updateSyntax :: "nat \<Rightarrow> bool \<Rightarrow> Editor \<Rightarrow> nat \<Rightarrow> error + Editor" where
  "updateSyntax 0 oob ed p = Inl OutOfFuel"
| "updateSyntax (Suc f) oob ed p =
     bindE (syntax_pass oob ed p)
       (\<lambda>(ed', nxt). case nxt of None \<Rightarrow> Inr ed' | Some q \<Rightarrow> updateSyntax f oob ed' q)"

text \<open>
  The positions of the rows that the calls of \<^verbatim>\<open>_updateSyntax\<close> scan, in the order of
  the calls: the same recursion, keeping the arguments instead of the result.
\<close>

fun updateSyntax_calls :: "nat \<Rightarrow> bool \<Rightarrow> Editor \<Rightarrow> nat \<Rightarrow> nat list" where
  "updateSyntax_calls 0 oob ed p = []"
| "updateSyntax_calls (Suc f) oob ed p =
     p # (case syntax_pass oob ed p of
            Inr (ed', Some q) \<Rightarrow> updateSyntax_calls f oob ed' q
          | _ \<Rightarrow> [])"

subsection \<open>\<^verbatim>\<open>_update\<close>: the rendered form of a row\<close>

text \<open>
  The inner \<^verbatim>\<open>while (idx % _tabStop != 0)\<close>. A zero tab stop divides by zero in C;
  the model leaves the loop there.
\<close>

lemma pad_measure:
  assumes "ts \<noteq> 0" "c_rem i ts \<noteq> 0"
  shows "nat ((- (i + 1)) mod \<bar>ts\<bar>) < nat ((- i) mod \<bar>ts\<bar>)"
proof -
  define m where "m = \<bar>ts\<bar>"
  have m: "0 < m" using assms(1) by (simp add: m_def)
  have "\<bar>i\<bar> mod m \<noteq> 0" using assms(2) by (auto simp: c_rem_def m_def)
  then have nz: "i mod m \<noteq> 0" by (simp add: dvd_eq_mod_eq_0 [symmetric])
  have r: "0 \<le> i mod m" "i mod m < m" using m by simp_all
  have a: "(- i) mod m = m - i mod m" using nz by (simp add: zmod_zminus1_eq_if)
  have e: "(i + 1) mod m = (i mod m + 1) mod m" by (simp add: mod_add_left_eq)
  have s: "(i + 1) mod m = (if i mod m + 1 = m then 0 else i mod m + 1)"
  proof (cases "i mod m + 1 = m")
    case True
    then show ?thesis unfolding e by simp
  next
    case False
    then have "i mod m + 1 < m" using r by linarith
    then show ?thesis unfolding e using r False by simp
  qed
  have b: "(- (i + 1)) mod m = (if i mod m + 1 = m then 0 else m - (i mod m + 1))"
    unfolding zmod_zminus1_eq_if s using r by auto
  show ?thesis unfolding m_def [symmetric] a b using r nz by auto
qed

function pad_loop :: "int \<Rightarrow> string \<Rightarrow> int \<Rightarrow> string \<times> int" where
  "pad_loop ts rnd i =
     (if ts \<noteq> 0 \<and> c_rem i ts \<noteq> 0 then pad_loop ts (rnd @ '' '') (i + 1) else (rnd, i))"
  by pat_completeness auto
termination
  by (relation "measure (\<lambda>(ts, rnd, i). nat ((- i) mod \<bar>ts\<bar>))") (auto dest: pad_measure)

declare pad_loop.simps [simp del]

function render_loop ::
  "int \<Rightarrow> string \<Rightarrow> int \<Rightarrow> int \<Rightarrow> string \<Rightarrow> int \<Rightarrow> error + string \<times> int" where
  "render_loop ts cs sz j rnd i =
     (if j < sz then
        (case at cs j of
           Inl e \<Rightarrow> Inl e
         | Inr c \<Rightarrow>
             (if c = TAB
              then (case pad_loop ts (rnd @ '' '') (i + 1) of
                      (rnd', i') \<Rightarrow> render_loop ts cs sz (j + 1) rnd' i')
              else render_loop ts cs sz (j + 1) (rnd @ [c]) (i + 1)))
      else Inr (rnd, i))"
  by pat_completeness auto
termination
  by (relation "measure (\<lambda>(ts, cs, sz, j, rnd, i). nat (sz - j))") auto

declare render_loop.simps [simp del]

definition update :: "nat \<Rightarrow> bool \<Rightarrow> Editor \<Rightarrow> int \<Rightarrow> error + Editor" where
  "update f oob ed rowIndex =
     bindE (at (rows ed) rowIndex)
       (\<lambda>row.
          bindE (render_loop (tabStop ed) (chars row) (size_row row) 0 [] 0)
            (\<lambda>(rnd, n).
               updateSyntax f oob
                 (set_row ed (nat rowIndex) (row\<lparr>render := rnd, rsize := n\<rparr>))
                 (nat rowIndex)))"

text \<open>The rows scanned by the calls of \<^verbatim>\<open>_updateSyntax\<close> that \<^verbatim>\<open>_update(rowIndex)\<close> makes.\<close>

definition update_calls :: "nat \<Rightarrow> bool \<Rightarrow> Editor \<Rightarrow> int \<Rightarrow> nat list" where
  "update_calls f oob ed rowIndex =
     (case at (rows ed) rowIndex of
        Inl e \<Rightarrow> []
      | Inr row \<Rightarrow>
          (case render_loop (tabStop ed) (chars row) (size_row row) 0 [] 0 of
             Inl e \<Rightarrow> []
           | Inr (rnd, n) \<Rightarrow>
               updateSyntax_calls f oob
                 (set_row ed (nat rowIndex) (row\<lparr>render := rnd, rsize := n\<rparr>))
                 (nat rowIndex)))"

subsection \<open>Row operations\<close>

definition new_row :: "string \<Rightarrow> int \<Rightarrow> Row" where
  "new_row s at' = \<lparr> idx = at', size_row = int (length s), rsize = 0, chars = s,
                     render = [], hl = [], hl_open_comment = False \<rparr>"

definition insertRow :: "nat \<Rightarrow> bool \<Rightarrow> Editor \<Rightarrow> string \<Rightarrow> int \<Rightarrow> error + Editor" where
  "insertRow f oob ed s at' =
     (if 0 \<le> at' \<and> at' \<le> int (length (rows ed)) then
        bindE (update f oob
                 (ed\<lparr>rows := take (nat at') (rows ed) @ [new_row s at']
                                @ drop (nat at') (rows ed)\<rparr>) at')
          (\<lambda>e. Inr (e\<lparr>dirty := dirty e + 1\<rparr>))
      else Inr ed)"

definition delRow :: "Editor \<Rightarrow> int \<Rightarrow> Editor" where
  "delRow ed at' =
     (if at' < 0 \<or> at' \<ge> int (length (rows ed)) then ed
      else ed\<lparr>rows := take (nat at') (rows ed)
                        @ map (\<lambda>r. r\<lparr>idx := idx r - 1\<rparr>) (drop (nat at' + 1) (rows ed)),
              dirty := dirty ed + 1\<rparr>)"

text \<open>
  The three operations below take \<^verbatim>\<open>Row& row\<close>; \<open>p\<close> is the position of the row the
  reference points at. \<^verbatim>\<open>string::insert\<close> throws when the position is behind the end.
\<close>

definition rowInsertChar ::
  "nat \<Rightarrow> bool \<Rightarrow> Editor \<Rightarrow> nat \<Rightarrow> int \<Rightarrow> char \<Rightarrow> error + Editor" where
  "rowInsertChar f oob ed p at' c =
     (let row = rows ed ! p;
          a = (if at' < 0 \<or> at' > size_row row then size_row row else at')
      in if a < 0 \<or> a > int (length (chars row)) then Inl OutOfRange
         else
           (let row' = row\<lparr>chars := take (nat a) (chars row) @ [c] @ drop (nat a) (chars row),
                           size_row := size_row row + 1\<rparr>
            in bindE (update f oob (set_row ed p row') (idx row'))
                 (\<lambda>e. Inr (e\<lparr>dirty := dirty e + 1\<rparr>))))"

text \<open>The rows scanned while \<^verbatim>\<open>_rowInsertChar\<close> runs: those of its call of \<^verbatim>\<open>_update\<close>.\<close>

definition rowInsertChar_calls ::
  "nat \<Rightarrow> bool \<Rightarrow> Editor \<Rightarrow> nat \<Rightarrow> int \<Rightarrow> char \<Rightarrow> nat list" where
  "rowInsertChar_calls f oob ed p at' c =
     (let row = rows ed ! p;
          a = (if at' < 0 \<or> at' > size_row row then size_row row else at')
      in if a < 0 \<or> a > int (length (chars row)) then []
         else
           (let row' = row\<lparr>chars := take (nat a) (chars row) @ [c] @ drop (nat a) (chars row),
                           size_row := size_row row + 1\<rparr>
            in update_calls f oob (set_row ed p row') (idx row')))"

definition rowAppendString ::
  "nat \<Rightarrow> bool \<Rightarrow> Editor \<Rightarrow> nat \<Rightarrow> string \<Rightarrow> error + Editor" where
  "rowAppendString f oob ed p s =
     (let row = rows ed ! p;
          row' = row\<lparr>chars := chars row @ s, size_row := size_row row + int (length s)\<rparr>
      in bindE (update f oob (set_row ed p row') (idx row'))
           (\<lambda>e. Inr (e\<lparr>dirty := dirty e + 1\<rparr>)))"

definition rowDelChar :: "nat \<Rightarrow> bool \<Rightarrow> Editor \<Rightarrow> nat \<Rightarrow> int \<Rightarrow> error + Editor" where
  "rowDelChar f oob ed p at' =
     (let row = rows ed ! p
      in if at' < 0 \<or> at' \<ge> size_row row then Inr ed
         else
           (let row' = row\<lparr>chars := take (nat at') (chars row) @ drop (nat at' + 1) (chars row),
                           size_row := size_row row - 1\<rparr>
            in bindE (update f oob (set_row ed p row') (idx row'))
                 (\<lambda>e. Inr (e\<lparr>dirty := dirty e + 1\<rparr>))))"

subsection \<open>Editor operations\<close>

text \<open>Key codes, as \<^verbatim>\<open>_readKey\<close> returns them.\<close>

definition BACKSPACE :: int where "BACKSPACE = 127"
definition ARROW_LEFT :: int where "ARROW_LEFT = 1000"
definition ARROW_RIGHT :: int where "ARROW_RIGHT = 1001"
definition ARROW_UP :: int where "ARROW_UP = 1002"
definition ARROW_DOWN :: int where "ARROW_DOWN = 1003"
definition DEL_KEY :: int where "DEL_KEY = 1004"
definition KEY_ESC :: int where "KEY_ESC = 27"
definition KEY_RETURN :: int where "KEY_RETURN = 13"
definition CTRL_H :: int where "CTRL_H = 8"

definition insertChar :: "nat \<Rightarrow> bool \<Rightarrow> Editor \<Rightarrow> char \<Rightarrow> error + Editor" where
  "insertChar f oob ed c =
     bindE (if cy ed = int (length (rows ed))
            then insertRow f oob ed [] (int (length (rows ed))) else Inr ed)
       (\<lambda>e1.
          bindE (at (rows e1) (cy e1))
            (\<lambda>_. bindE (rowInsertChar f oob e1 (nat (cy e1)) (cx e1) c)
                    (\<lambda>e2. Inr (e2\<lparr>cx := cx e2 + 1\<rparr>))))"

text \<open>\<^verbatim>\<open>std::string(const char *)\<close> and \<^verbatim>\<open>c_str()\<close> read up to the first NUL.\<close>

definition c_str :: "string \<Rightarrow> string" where
  "c_str s = takeWhile (\<lambda>c. c \<noteq> NUL) s"

text \<open>\<^verbatim>\<open>string::resize(n)\<close>: cut, or fill with NUL.\<close>

definition resize_str :: "string \<Rightarrow> nat \<Rightarrow> string" where
  "resize_str s n = take n s @ replicate (n - length s) NUL"

text \<open>
  \<^verbatim>\<open>_insertNewLine\<close>. The new row is built from \<^verbatim>\<open>row.chars.data() + _cx\<close>, a
  \<^verbatim>\<open>const char *\<close> that the call converts to a \<^verbatim>\<open>std::string\<close>. \<^verbatim>\<open>row\<close> is a
  reference to \<^verbatim>\<open>_rows.at(_cy)\<close> taken before \<^verbatim>\<open>_insertRow\<close>; the insertion is behind
  that element, so as long as the vector does not reallocate the reference still
  names row \<open>cy\<close>, \<^verbatim>\<open>row = _rows.at(_cy)\<close> assigns the row to itself, and the two lines
  after it cut row \<open>cy\<close>. (When the vector reallocates, the reference dangles and C++
  leaves the behaviour undefined; that case is not modelled.) \<open>newline_split\<close> is the
  \<^verbatim>\<open>else\<close> branch up to its last line, the call \<^verbatim>\<open>_update(_cy)\<close>.
\<close>

definition newline_split :: "nat \<Rightarrow> bool \<Rightarrow> Editor \<Rightarrow> error + Editor" where
  "newline_split f oob ed =
     bindE (at (rows ed) (cy ed))
       (\<lambda>row.
          bindE (insertRow f oob ed (c_str (drop (nat (cx ed)) (chars row))) (cy ed + 1))
            (\<lambda>e1.
               bindE (at (rows e1) (cy e1))
                 (\<lambda>row1.
                    Inr (set_row e1 (nat (cy e1))
                           (row1\<lparr>size_row := cx e1,
                                 chars := resize_str (chars row1) (nat (cx e1))\<rparr>)))))"

definition insertNewLine :: "nat \<Rightarrow> bool \<Rightarrow> Editor \<Rightarrow> error + Editor" where
  "insertNewLine f oob ed =
     bindE (if cx ed = 0 then insertRow f oob ed [] (cy ed)
            else bindE (newline_split f oob ed) (\<lambda>e2. update f oob e2 (cy e2)))
       (\<lambda>e. Inr (e\<lparr>cy := cy e + 1, cx := 0\<rparr>))"

definition delChar :: "nat \<Rightarrow> bool \<Rightarrow> Editor \<Rightarrow> error + Editor" where
  "delChar f oob ed =
     (if cy ed = int (length (rows ed)) then Inr ed
      else if cx ed = 0 \<and> cy ed = 0 then Inr ed
      else
        bindE (at (rows ed) (cy ed))
          (\<lambda>row.
             if cx ed > 0
             then bindE (rowDelChar f oob ed (nat (cy ed)) (cx ed - 1))
                    (\<lambda>e. Inr (e\<lparr>cx := cx e - 1\<rparr>))
             else
               bindE (at (rows ed) (cy ed - 1))
                 (\<lambda>prev.
                    bindE (rowAppendString f oob (ed\<lparr>cx := size_row prev\<rparr>)
                             (nat (cy ed - 1)) (chars row))
                      (\<lambda>e. let e' = delRow e (cy e) in Inr (e'\<lparr>cy := cy e' - 1\<rparr>)))))"

text \<open>\<^verbatim>\<open>_moveCursor\<close>; \<open>cursor_key\<close> is the \<^verbatim>\<open>switch\<close>.\<close>

definition cursor_key :: "Editor \<Rightarrow> int \<Rightarrow> error + Editor" where
  "cursor_key ed key =
     (let validRow = (cy ed < int (length (rows ed)))
      in if key = ARROW_LEFT then
           (if cx ed \<noteq> 0 then Inr (ed\<lparr>cx := cx ed - 1\<rparr>)
            else if cy ed > 0
            then bindE (at (rows ed) (cy ed - 1))
                   (\<lambda>r. Inr (ed\<lparr>cy := cy ed - 1, cx := size_row r\<rparr>))
            else Inr ed)
         else if key = ARROW_RIGHT then
           (if validRow
            then bindE (at (rows ed) (cy ed))
                   (\<lambda>r. if cx ed < size_row r then Inr (ed\<lparr>cx := cx ed + 1\<rparr>)
                        else if cx ed = size_row r then Inr (ed\<lparr>cy := cy ed + 1, cx := 0\<rparr>)
                        else Inr ed)
            else Inr ed)
         else if key = ARROW_UP then
           (if cy ed \<noteq> 0 then Inr (ed\<lparr>cy := cy ed - 1\<rparr>) else Inr ed)
         else if key = ARROW_DOWN then
           (if cy ed < int (length (rows ed)) then Inr (ed\<lparr>cy := cy ed + 1\<rparr>) else Inr ed)
         else Inr ed)"

definition moveCursor :: "Editor \<Rightarrow> int \<Rightarrow> error + Editor" where
  "moveCursor ed key =
     bindE (cursor_key ed key)
       (\<lambda>e. bindE (if cy e < int (length (rows e))
                   then bindE (at (rows e) (cy e)) (\<lambda>r. Inr (size_row r))
                   else Inr 0)
              (\<lambda>rowlen. Inr (if cx e > rowlen then e\<lparr>cx := rowlen\<rparr> else e)))"

subsection \<open>The syntax table and \<^verbatim>\<open>_selectSyntaxHighlight\<close>\<close>

definition C_HL_extensions :: "string list" where
  "C_HL_extensions = [''.c'', ''.h'', ''.cpp'', ''.cc'']"

definition C_HL_keywords :: "string list" where
  "C_HL_keywords =
     [''switch'', ''if'', ''while'', ''for'', ''break'', ''continue'', ''return'', ''else'',
      ''struct'', ''union'', ''typedef'', ''static'', ''enum'', ''class'', ''case'',
      ''int|'', ''long|'', ''double|'', ''float|'', ''char|'', ''unsigned|'', ''signed|'',
      ''void|'']"

definition C_syntax :: Syntax where
  "C_syntax = \<lparr> filetype = ''c'', filematch = C_HL_extensions,
                 keywords_syn = C_HL_keywords,
                 singleLineCommentStart = ''//'', multiLineCommentStart = ''/*'',
                 multilineCommentEnd = ''*/'',
                 flags = HIGHLIGHT_NUMBERS OR HIGHLIGHT_STRINGS \<rparr>"

definition HLDB :: "Syntax list" where
  "HLDB = [C_syntax]"

text \<open>\<^verbatim>\<open>_filename.substr(_filename.rfind("."))\<close>, \<open>None\<close> when there is no dot.\<close>

fun ext_of :: "string \<Rightarrow> string option" where
  "ext_of [] = None"
| "ext_of (c # cs) =
     (case ext_of cs of
        Some e \<Rightarrow> Some e
      | None \<Rightarrow> if c = CHR ''.'' then Some (c # cs) else None)"

definition file_matches :: "string \<Rightarrow> string \<Rightarrow> string \<Rightarrow> bool" where
  "file_matches fname ext m =
     (let isExt = (byte_at m 0 = CHR ''.'');
          matchExt = (isExt \<and> ext \<noteq> [] \<and> ext = m);
          matchFile = (\<not> isExt \<and> fname = m)
      in matchExt \<or> matchFile)"

fun find_syntax :: "Syntax list \<Rightarrow> string \<Rightarrow> string \<Rightarrow> Syntax option" where
  "find_syntax [] fname ext = None"
| "find_syntax (s # ss) fname ext =
     (if list_ex (file_matches fname ext) (filematch s) then Some s
      else find_syntax ss fname ext)"

definition updateSyntax_all :: "nat \<Rightarrow> bool \<Rightarrow> Editor \<Rightarrow> error + Editor" where
  "updateSyntax_all f oob ed =
     foldl (\<lambda>m i. bindE m (\<lambda>e. bindE (at (rows e) (int i)) (\<lambda>_. updateSyntax f oob e i)))
       (Inr ed) [0 ..< length (rows ed)]"

definition selectSyntaxHighlight :: "nat \<Rightarrow> bool \<Rightarrow> Editor \<Rightarrow> error + Editor" where
  "selectSyntaxHighlight f oob ed =
     (let e0 = ed\<lparr>syntax_hl := None\<rparr>
      in if filename e0 = [] then Inr e0
         else
           (case ext_of (filename e0) of
              None \<Rightarrow> Inr e0
            | Some ext \<Rightarrow>
                (case find_syntax HLDB (filename e0) ext of
                   None \<Rightarrow> Inr e0
                 | Some s \<Rightarrow> updateSyntax_all f oob (e0\<lparr>syntax_hl := Some s\<rparr>))))"

subsection \<open>Loading and saving: \<^verbatim>\<open>open\<close>, \<^verbatim>\<open>_save\<close>\<close>

definition LF :: char where "LF = CHR 0x0A"
definition CR :: char where "CR = CHR 0x0D"

text \<open>
  The lines \<^verbatim>\<open>getline\<close> returns for a file: each ends with its \<^verbatim>\<open>\n\<close>, except a last
  line that has none. \<open>acc\<close> is the line read so far.
\<close>

fun getlines :: "string \<Rightarrow> string \<Rightarrow> string list" where
  "getlines acc [] = (if acc = [] then [] else [acc])"
| "getlines acc (c # cs) =
     (if c = LF then (acc @ [c]) # getlines [] cs else getlines (acc @ [c]) cs)"

text \<open>The inner \<^verbatim>\<open>while\<close> of \<^verbatim>\<open>open\<close>: drop every trailing \<^verbatim>\<open>\n\<close> and \<^verbatim>\<open>\r\<close>.\<close>

definition strip_eol :: "string \<Rightarrow> string" where
  "strip_eol l = rev (dropWhile (\<lambda>c. c = LF \<or> c = CR) (rev l))"

text \<open>
  \<open>open_file f oob ed name content\<close> is \<^verbatim>\<open>open(name)\<close> when the file \<open>name\<close> exists and
  holds the bytes \<open>content\<close>.
\<close>

definition open_file ::
  "nat \<Rightarrow> bool \<Rightarrow> Editor \<Rightarrow> string \<Rightarrow> string \<Rightarrow> error + Editor" where
  "open_file f oob ed name content =
     bindE (selectSyntaxHighlight f oob (ed\<lparr>filename := name\<rparr>))
       (\<lambda>e0.
          bindE (foldl (\<lambda>m l. bindE m
                          (\<lambda>e. insertRow f oob e (strip_eol l) (int (length (rows e)))))
                   (Inr e0) (getlines [] content))
            (\<lambda>e. Inr (e\<lparr>dirty := 0\<rparr>)))"

text \<open>
  The bytes \<^verbatim>\<open>_save\<close> writes when the file name is set and every \<^verbatim>\<open>fwrite\<close>
  succeeds: for each row, \<^verbatim>\<open>row.chars.length()\<close> bytes of \<^verbatim>\<open>row.chars\<close>, and nothing
  else.
\<close>

definition save_bytes :: "Editor \<Rightarrow> string" where
  "save_bytes ed = foldl (\<lambda>out row. out @ chars row) [] (rows ed)"

subsection \<open>Search: \<^verbatim>\<open>_prompt\<close>, \<^verbatim>\<open>_find\<close>, \<^verbatim>\<open>_findAction\<close>\<close>

text \<open>\<^verbatim>\<open>iscntrl\<close> in the C locale; the test that uses it also asks for \<open>c < 128\<close>.\<close>

definition iscntrl :: "int \<Rightarrow> bool" where
  "iscntrl c = ((0 \<le> c \<and> c < 32) \<or> c = 127)"

text \<open>The \<^verbatim>\<open>static\<close> locals of \<^verbatim>\<open>_findAction\<close>; they live as long as the program.\<close>

record Find =
  last_match :: int
  direction :: int
  savedHl :: "Highlight list"
  savedHlLine :: int

definition Find_init :: Find where
  "Find_init = \<lparr> last_match = - 1, direction = 1, savedHl = [], savedHlLine = 0 \<rparr>"

text \<open>\<^verbatim>\<open>strstr\<close>: the offset of the first occurrence of the needle.\<close>

fun strstr :: "string \<Rightarrow> string \<Rightarrow> nat option" where
  "strstr [] nd = (if nd = [] then Some 0 else None)"
| "strstr (h # hs) nd =
     (if take (length nd) (h # hs) = nd then Some 0
      else map_option Suc (strstr hs nd))"

function find_loop ::
  "string \<Rightarrow> int \<Rightarrow> int \<Rightarrow> int \<Rightarrow> Editor \<times> Find \<Rightarrow> error + Editor \<times> Find" where
  "find_loop query numRows i current (ed, fs) =
     (if i < numRows then
        (let c1 = current + direction fs;
             c2 = (if c1 = - 1 then numRows - 1 else if c1 = numRows then 0 else c1)
         in case at (rows ed) c2 of
              Inl e \<Rightarrow> Inl e
            | Inr row \<Rightarrow>
                (case strstr (c_str (render row)) (c_str query) of
                   Some off \<Rightarrow>
                     bindE (rowRxToCx ed (idx row) (int off))
                       (\<lambda>cx'.
                          Inr (ed\<lparr>cy := c2, cx := cx', rowOffset := numRows,
                                   rows := (rows ed)[nat c2 :=
                                     row\<lparr>hl := memset (hl row) off HL_MATCH
                                                   (length query)\<rparr>]\<rparr>,
                               fs\<lparr>last_match := c2, savedHlLine := c2,
                                  savedHl := hl row\<rparr>))
                 | None \<Rightarrow> find_loop query numRows (i + 1) c2 (ed, fs)))
      else Inr (ed, fs))"
  by pat_completeness auto
termination
  by (relation "measure (\<lambda>(query, numRows, i, current, s). nat (numRows - i))") auto

declare find_loop.simps [simp del]

definition findAction :: "string \<Rightarrow> int \<Rightarrow> Editor \<times> Find \<Rightarrow> error + Editor \<times> Find" where
  "findAction query key s =
     (case s of (ed, fs) \<Rightarrow>
        bindE (if savedHl fs \<noteq> []
               then bindE (at (rows ed) (savedHlLine fs))
                      (\<lambda>row. Inr (set_row ed (nat (savedHlLine fs)) (row\<lparr>hl := savedHl fs\<rparr>),
                                  fs\<lparr>savedHl := []\<rparr>))
               else Inr (ed, fs))
          (\<lambda>(e1, f1).
             if key = KEY_RETURN \<or> key = KEY_ESC
             then Inr (e1, f1\<lparr>last_match := - 1, direction := 1\<rparr>)
             else
               (let f2 = (if key = ARROW_RIGHT \<or> key = ARROW_DOWN then f1\<lparr>direction := 1\<rparr>
                          else if key = ARROW_LEFT \<or> key = ARROW_UP
                          then f1\<lparr>direction := - 1\<rparr>
                          else f1\<lparr>last_match := - 1, direction := 1\<rparr>);
                    f3 = (if last_match f2 = - 1 then f2\<lparr>direction := 1\<rparr> else f2)
                in find_loop query (int (length (rows e1))) 0 (last_match f3) (e1, f3))))"

text \<open>
  \<^verbatim>\<open>_prompt\<close>, reading its keys from a list. Each turn redraws the screen, which runs
  \<^verbatim>\<open>_scroll\<close> (the bytes drawn are not modelled), reads a key, and either returns or
  ends with the call of the callback. \<open>prompt_key\<close> is the \<^verbatim>\<open>if\<close> chain on the key.
\<close>

datatype prompt_step = Return string | Continue string

definition prompt_key :: "string \<Rightarrow> int \<Rightarrow> prompt_step" where
  "prompt_key buf c =
     (if c = DEL_KEY \<or> c = CTRL_H \<or> c = BACKSPACE
      then Continue (if buf \<noteq> [] then butlast buf else buf)
      else if c = KEY_ESC then Return []
      else if c = KEY_RETURN then (if buf \<noteq> [] then Return buf else Continue buf)
      else if \<not> iscntrl c \<and> c < 128 then Continue (buf @ [char_of c])
      else Continue buf)"

fun prompt ::
  "(string \<Rightarrow> int \<Rightarrow> Editor \<times> Find \<Rightarrow> error + Editor \<times> Find) option \<Rightarrow> int list \<Rightarrow> string
     \<Rightarrow> Editor \<times> Find \<Rightarrow> error + string \<times> int list \<times> Editor \<times> Find" where
  "prompt cb [] buf (ed, fs) = bindE (scroll ed) (\<lambda>_. Inl WaitingForKey)"
| "prompt cb (c # ks) buf (ed, fs) =
     bindE (scroll ed)
       (\<lambda>e1.
          case prompt_key buf c of
            Return r \<Rightarrow> Inr (r, ks, e1, fs)
          | Continue buf' \<Rightarrow>
              bindE (case cb of None \<Rightarrow> Inr (e1, fs) | Some g \<Rightarrow> g buf' c (e1, fs))
                (\<lambda>s'. prompt cb ks buf' s'))"

definition find_cmd :: "int list \<Rightarrow> Editor \<times> Find \<Rightarrow> error + int list \<times> Editor \<times> Find" where
  "find_cmd keys s =
     (case s of (ed, fs) \<Rightarrow>
        bindE (prompt (Some findAction) keys [] (ed, fs))
          (\<lambda>(query, ks, e, fs').
             Inr (ks,
                  (if query = []
                   then e\<lparr>cx := cx ed, cy := cy ed, colOffset := colOffset ed,
                          rowOffset := rowOffset ed\<rparr>
                   else e),
                  fs')))"

text \<open>
  \<^verbatim>\<open>_save\<close>, with \<^verbatim>\<open>fopen\<close> and \<^verbatim>\<open>fwrite\<close> succeeding: the first component is the
  content of the file afterwards, \<open>None\<close> when the save was aborted at the prompt.
\<close>

definition save ::
  "nat \<Rightarrow> bool \<Rightarrow> int list \<Rightarrow> Editor \<times> Find
     \<Rightarrow> error + string option \<times> int list \<times> Editor \<times> Find" where
  "save f oob keys s =
     (case s of (ed, fs) \<Rightarrow>
        if filename ed = [] then
          bindE (prompt None keys [] (ed, fs))
            (\<lambda>(name, ks, e, fs').
               if name = [] then Inr (None, ks, e\<lparr>filename := name\<rparr>, fs')
               else bindE (selectSyntaxHighlight f oob (e\<lparr>filename := name\<rparr>))
                      (\<lambda>e'. Inr (Some (save_bytes e'), ks, e'\<lparr>dirty := 0\<rparr>, fs')))
        else Inr (Some (save_bytes ed), keys, ed\<lparr>dirty := 0\<rparr>, fs))"

subsection \<open>Auxiliary definitions for the statements\<close>

text \<open>The render column after the bytes \<open>cs\<close>, starting from column \<open>r\<close>.\<close>

definition walk :: "int \<Rightarrow> int \<Rightarrow> string \<Rightarrow> int" where
  "walk ts r cs = foldl (advance_rx ts) r cs"

text \<open>The scan state of the row \<^verbatim>\<open>a b\<close> in front of its third byte.\<close>

definition st_b :: Scan where
  "st_b = \<lparr>pos = 2, prevSep = True, inString = None, inComment = False,
            shl = replicate 3 HL_NORMAL\<rparr>"

text \<open>
  What the editing operations leave alone: \<open>text_of\<close> is what \<^verbatim>\<open>_update\<close> never
  writes, \<open>layout_of\<close> what \<^verbatim>\<open>_updateSyntax\<close> never writes.
\<close>

definition text_of :: "Row \<Rightarrow> int \<times> int \<times> string" where
  "text_of r = (idx r, size_row r, chars r)"

definition layout_of :: "Row \<Rightarrow> int \<times> int \<times> string \<times> int \<times> string" where
  "layout_of r = (idx r, size_row r, chars r, rsize r, render r)"

text \<open>
  The invariants of the buffer. \<open>idx_ok\<close>: every \<^verbatim>\<open>idx\<close> is the position of its row.
  \<open>layout_ok\<close>: the two size fields are the lengths of the two strings. \<open>hl_ok_row\<close>:
  one highlight byte for each rendered byte. \<open>up_to_date\<close>: deriving the rendered form
  again from \<^verbatim>\<open>chars\<close> gives the stored \<^verbatim>\<open>render\<close> and \<^verbatim>\<open>rsize\<close>. \<open>scan_ok\<close> is the
  invariant of the scan loop.
\<close>

definition idx_ok :: "Editor \<Rightarrow> bool" where
  "idx_ok ed = (map idx (rows ed) = map int [0 ..< length (rows ed)])"

definition layout_ok :: "Editor \<Rightarrow> bool" where
  "layout_ok ed = (\<forall>r \<in> set (rows ed). size_row r = int (length (chars r))
                                      \<and> rsize r = int (length (render r)))"

definition hl_ok_row :: "Row \<Rightarrow> bool" where
  "hl_ok_row r = (length (hl r) = length (render r))"

definition up_to_date :: "int \<Rightarrow> Row \<Rightarrow> bool" where
  "up_to_date ts r = (render_loop ts (chars r) (size_row r) 0 [] 0 = Inr (render r, rsize r))"

definition buffer_ok :: "Editor \<Rightarrow> bool" where
  "buffer_ok ed = (idx_ok ed \<and> layout_ok ed
                   \<and> (\<forall>r \<in> set (rows ed). hl_ok_row r \<and> up_to_date (tabStop ed) r))"

definition scan_ok :: "string \<Rightarrow> Scan \<Rightarrow> bool" where
  "scan_ok rnd st = (length (shl st) = length rnd \<and> pos st \<le> length rnd)"

text \<open>
  The file \<^verbatim>\<open>a.c\<close> with the three lines \<^verbatim>\<open>/*\<close>, \<^verbatim>\<open>x\<close>, \<^verbatim>\<open>y\<close> after the keys
  Return, Down, Down: four rows, the cursor at the start of the last one.
\<close>

definition comment_story :: "error + Editor" where
  "comment_story =
     bindE (open_file 1 False Editor_init ''a.c'' (''/*'' @ [LF] @ ''x'' @ [LF] @ ''y'' @ [LF]))
       (\<lambda>e. bindE (insertNewLine 1 False e)
          (\<lambda>e. bindE (moveCursor e ARROW_DOWN) (\<lambda>e. moveCursor e ARROW_DOWN)))"

section \<open>Properties\<close>

subsection \<open>Results and lists\<close>

lemma bindE_Inr: "bindE m f = Inr y \<longleftrightarrow> (\<exists>x. m = Inr x \<and> f x = Inr y)"
  by (cases m) (simp_all add: bindE_def)

lemma at_Inr: "at xs i = Inr x \<Longrightarrow> 0 \<le> i \<and> i < int (length xs) \<and> x = xs ! nat i"
  by (auto simp: at_def split: if_splits)

lemma map_update_same: "f r = f (xs ! p) \<Longrightarrow> map f (xs[p := r]) = map f xs"
proof (cases "p < length xs")
  case True
  assume "f r = f (xs ! p)"
  then have "map f (xs[p := r]) = (map f xs)[p := (map f xs) ! p]"
    using True by (simp add: map_update)
  then show ?thesis by simp
next
  case False
  then show ?thesis by (simp add: list_update_beyond not_less)
qed

lemma map_nth_eq: "map f xs = map f ys \<Longrightarrow> q < length xs \<Longrightarrow> f (xs ! q) = f (ys ! q)"
  by (metis length_map nth_map)

lemma foldl_bindE_Inl: "foldl (\<lambda>m x. bindE m (g x)) (Inl e) xs = Inl e"
  by (induction xs) (simp_all add: bindE_def)

lemma rows_set_row: "rows (set_row ed p r) = (rows ed)[p := r]"
  by (simp add: set_row_def)

subsection \<open>Coordinate mapping\<close>

lemma c_rem_less: "0 < b \<Longrightarrow> c_rem a b \<le> b - 1"
proof -
  assume b: "0 < b"
  define x where "x = \<bar>a\<bar> mod \<bar>b\<bar>"
  have "x < b" "0 \<le> x" using b by (simp_all add: x_def)
  then show ?thesis unfolding c_rem_def x_def [symmetric]
    by (cases "0 < a"; cases "a = 0") (simp_all add: sgn_if)
qed

lemma advance_rx_gt: "0 < ts \<Longrightarrow> r < advance_rx ts r c"
  using c_rem_less [of ts r] by (simp add: advance_rx_def)

lemma walk_ge: "0 < ts \<Longrightarrow> r \<le> walk ts r cs"
proof (induction cs arbitrary: r)
  case Nil
  then show ?case by (simp add: walk_def)
next
  case (Cons c cs)
  have "r < advance_rx ts r c" using Cons.prems by (rule advance_rx_gt)
  moreover have "advance_rx ts r c \<le> walk ts (advance_rx ts r c) cs"
    using Cons.IH [OF Cons.prems] .
  ultimately show ?case by (simp add: walk_def)
qed

lemma walk_append: "walk ts r (xs @ ys) = walk ts (walk ts r xs) ys"
  by (simp add: walk_def)

lemma walk_take_mono:
  assumes "0 < ts" "a \<le> b"
  shows "walk ts r (take a cs) \<le> walk ts r (take b cs)"
proof -
  have "take b cs = take a cs @ take (b - a) (drop a cs)"
    using assms(2) by (metis le_add_diff_inverse take_add)
  then show ?thesis using walk_ge [OF assms(1)] by (simp add: walk_append)
qed

lemma walk_take_Suc:
  "k < length cs \<Longrightarrow> walk ts r (take (Suc k) cs) = advance_rx ts (walk ts r (take k cs)) (cs ! k)"
  by (simp add: take_Suc_conv_app_nth walk_def)

lemma cxToRx_loop_walk:
  "0 \<le> j \<Longrightarrow> j \<le> c \<Longrightarrow> c \<le> int (length cs) \<Longrightarrow> r = walk ts 0 (take (nat j) cs) \<Longrightarrow>
     cxToRx_loop ts cs c j r = Inr (walk ts 0 (take (nat c) cs))"
proof (induction ts cs c j r rule: cxToRx_loop.induct)
  case (1 ts cs c j r)
  show ?case
  proof (cases "j < c")
    case True
    have jl: "nat j < length cs" using "1.prems" True by linarith
    have a: "at cs j = Inr (cs ! nat j)" using "1.prems" True by (simp add: at_def)
    have n: "nat (j + 1) = Suc (nat j)" using "1.prems" by simp
    have "cxToRx_loop ts cs c (j + 1) (advance_rx ts r (cs ! nat j)) = Inr (walk ts 0 (take (nat c) cs))"
      using "1.prems" True jl by (intro "1.IH" [OF True a]) (simp_all add: n walk_take_Suc)
    then show ?thesis using True a by (subst cxToRx_loop.simps) simp
  next
    case False
    then have "j = c" using "1.prems" by simp
    then show ?thesis using "1.prems" by (subst cxToRx_loop.simps) simp
  qed
qed

lemma rxToCx_loop_inverse:
  "0 < ts \<Longrightarrow> 0 \<le> k \<Longrightarrow> k \<le> c \<Longrightarrow> c \<le> sz \<Longrightarrow> sz = int (length cs) \<Longrightarrow>
     cur = walk ts 0 (take (nat k) cs) \<Longrightarrow>
     rxToCx_loop ts cs sz (walk ts 0 (take (nat c) cs)) k cur = Inr c"
proof (induction ts cs sz "walk ts 0 (take (nat c) cs)" k cur rule: rxToCx_loop.induct)
  case (1 ts cs sz k cur)
  show ?case
  proof (cases "k < sz")
    case True
    have kl: "nat k < length cs" using "1.prems" True by linarith
    have a: "at cs k = Inr (cs ! nat k)" using "1.prems" True by (simp add: at_def)
    have n: "nat (k + 1) = Suc (nat k)" using "1.prems" by simp
    define cur' where "cur' = advance_rx ts cur (cs ! nat k)"
    have cur': "cur' = walk ts 0 (take (nat (k + 1)) cs)"
      using "1.prems" kl by (simp add: cur'_def n walk_take_Suc)
    show ?thesis
    proof (cases "cur' > walk ts 0 (take (nat c) cs)")
      case gt: True
      have "\<not> k < c"
      proof
        assume "k < c"
        then have "nat (k + 1) \<le> nat c" by simp
        then have "walk ts 0 (take (nat (k + 1)) cs) \<le> walk ts 0 (take (nat c) cs)"
          using "1.prems"(1) by (rule walk_take_mono [rotated])
        then show False using gt cur' by simp
      qed
      then have "k = c" using "1.prems" by simp
      then show ?thesis using True a gt
        by (subst rxToCx_loop.simps) (simp add: cur'_def Let_def)
    next
      case le: False
      have "k \<noteq> c"
      proof
        assume "k = c"
        then have "cur' > walk ts 0 (take (nat c) cs)"
          using advance_rx_gt [OF "1.prems"(1)] "1.prems" by (simp add: cur'_def)
        then show False using le by simp
      qed
      then have kc: "k + 1 \<le> c" using "1.prems" by simp
      have "rxToCx_loop ts cs sz (walk ts 0 (take (nat c) cs)) (k + 1) cur' = Inr c"
        using "1.prems" kc le cur'
        by (intro "1.hyps" [OF True a]) (simp_all add: cur'_def)
      then show ?thesis using True a le
        by (subst rxToCx_loop.simps) (simp add: cur'_def Let_def)
    qed
  next
    case False
    then have "k = c" using "1.prems" by simp
    then show ?thesis using False by (subst rxToCx_loop.simps) simp
  qed
qed

text \<open>
  C6. With a positive tab stop, for a row whose \<^verbatim>\<open>size\<close> is the length of its
  \<^verbatim>\<open>chars\<close> and a character column \<open>c\<close> between \<open>0\<close> and that size, \<^verbatim>\<open>_rowCxToRx\<close>
  returns a render column and \<^verbatim>\<open>_rowRxToCx\<close> maps it back to \<open>c\<close>.
\<close>

theorem tab_mapping_inverse:
  assumes "0 < tabStop ed"
    and "at (rows ed) rowId = Inr row"
    and "size_row row = int (length (chars row))"
    and "0 \<le> c" and "c \<le> size_row row"
  shows "\<exists>r. rowCxToRx ed rowId c = Inr r \<and> rowRxToCx ed rowId r = Inr c"
proof -
  let ?r = "walk (tabStop ed) 0 (take (nat c) (chars row))"
  have "cxToRx_loop (tabStop ed) (chars row) c 0 0 = Inr ?r"
    using assms by (intro cxToRx_loop_walk) (simp_all add: walk_def)
  then have 1: "rowCxToRx ed rowId c = Inr ?r"
    using assms(2) by (simp add: rowCxToRx_def bindE_def)
  have "rxToCx_loop (tabStop ed) (chars row) (size_row row) ?r 0 0 = Inr c"
    using assms by (intro rxToCx_loop_inverse) (simp_all add: walk_def)
  then have 2: "rowRxToCx ed rowId ?r = Inr c"
    using assms(2) by (simp add: rowRxToCx_def bindE_def)
  from 1 2 show ?thesis by blast
qed

theorem tab_mapping_inverse_witness:
  "\<exists>r. rowCxToRx (Editor_init\<lparr>rows := [new_row [CHR ''a'', TAB, CHR ''b''] 0]\<rparr>) 0 2 = Inr r
       \<and> rowRxToCx (Editor_init\<lparr>rows := [new_row [CHR ''a'', TAB, CHR ''b''] 0]\<rparr>) 0 r = Inr 2"
  by (rule tab_mapping_inverse [where row = "new_row [CHR ''a'', TAB, CHR ''b''] 0"])
     (simp_all add: Editor_init_def new_row_def at_def)

subsection \<open>Scrolling\<close>




subsection \<open>The keyword test of the highlighter\<close>

lemma kw_loop_no_hit:
  "\<forall>k \<in> set ks. \<not> kw_test rnd (pos st) k \<Longrightarrow> kw_loop rnd ks j st = (j + length ks, st)"
  by (induction ks arbitrary: j) simp_all

text \<open>
  C10. At a scan position that falls through to the keyword test with \<^verbatim>\<open>prevSep\<close>
  set and where no keyword matches, the loop ends with \<open>j\<close> equal to the number of
  keywords, the lookup \<^verbatim>\<open>keywords[j]\<close> is outside the vector (\<open>None\<close>), and what
  the turn does next is decided by that read alone. The witness is the byte \<^verbatim>\<open>b\<close> of
  the row \<^verbatim>\<open>a b\<close> under the C syntax.
\<close>

theorem keyword_test_reads_past_the_end:
  assumes "at rnd (int (pos st)) = Inr c"
    and "pre_keyword syn rnd n c st = None"
    and "prevSep st"
    and "\<forall>k \<in> set (keywords_syn syn). \<not> kw_test rnd (pos st) k"
  shows "kw_loop rnd (keywords_syn syn) 0 st = (length (keywords_syn syn), st)
         \<and> nth_opt (keywords_syn syn) (length (keywords_syn syn)) = None
         \<and> scan_step oob syn rnd n st
             = (if oob then Next (st\<lparr>prevSep := False\<rparr>) else normal_step c st)"
  using assms kw_loop_no_hit [OF assms(4), of 0]
  by (simp add: nth_opt_def scan_step_def br_kw_def kw_nonempty_def)

theorem keyword_test_reads_past_the_end_witness:
  "kw_loop ''a b'' (keywords_syn C_syntax) 0 st_b = (23, st_b)
   \<and> nth_opt (keywords_syn C_syntax) 23 = None
   \<and> scan_step True C_syntax ''a b'' 3 st_b = Next (st_b\<lparr>prevSep := False\<rparr>)"
proof -
  have 1: "at ''a b'' (int (pos st_b)) = Inr (CHR ''b'')" by code_simp
  have 2: "pre_keyword C_syntax ''a b'' 3 (CHR ''b'') st_b = None" by code_simp
  have 3: "prevSep st_b" by code_simp
  have 4: "\<forall>k \<in> set (keywords_syn C_syntax). \<not> kw_test ''a b'' (pos st_b) k" by code_simp
  have 5: "length (keywords_syn C_syntax) = 23" by code_simp
  show ?thesis
    using keyword_test_reads_past_the_end [OF 1 2 3 4, of True] by (simp add: 5)
qed

subsection \<open>The turns of the scan\<close>

text \<open>
  Whatever the read behind the keywords gives, a scan of a row whose \<^verbatim>\<open>rsize\<close> is the
  length of its rendered form returns, stays inside the row, keeps one highlight byte
  for each rendered byte, and makes at most twice the length of the row plus one
  turns.
\<close>

lemma memset_length: "i + n \<le> length h \<Longrightarrow> length (memset h i v n) = length h"
  by (simp add: memset_def)

lemma substr_fits:
  assumes "substr s i n = t" and "length t = n" and "i \<le> length s"
  shows "i + n \<le> length s"
proof -
  have "length (substr s i n) = min n (length s - i)" by (simp add: substr_def min_def)
  then have "n \<le> length s - i" using assms(1,2) by simp
  then show ?thesis using assms(3) by simp
qed

lemma kw_loop_ok:
  "kw_loop rnd ks j st = (j', st') \<Longrightarrow> scan_ok rnd st \<Longrightarrow> scan_ok rnd st'"
proof (induction ks arbitrary: j)
  case Nil
  then show ?case by simp
next
  case (Cons k ks)
  show ?case
  proof (cases "kw_test rnd (pos st) k")
    case True
    then have st': "st' = st\<lparr>shl := memset (shl st) (pos st)
                           (if kw2 k then HL_KEYWORD2 else HL_KEYWORD1) (kw_len k),
                 pos := pos st + kw_len k\<rparr>"
      using Cons.prems(1) by simp
    have "length (substr k 0 (kw_len k)) = kw_len k"
      by (simp add: substr_def kw_len_def)
    then have "pos st + kw_len k \<le> length rnd"
      using True Cons.prems(2) substr_fits [of rnd "pos st" "kw_len k"]
      by (simp add: kw_test_def scan_ok_def)
    then show ?thesis using Cons.prems(2) by (simp add: st' scan_ok_def memset_length)
  next
    case False
    then show ?thesis using Cons by simp
  qed
qed

lemma kw_loop_result:
  "kw_loop rnd ks j st = (j', st') \<Longrightarrow>
     (j' = j + length ks \<and> st' = st)
     \<or> (j \<le> j' \<and> j' < j + length ks \<and> pos st' = pos st + kw_len (ks ! (j' - j)))"
proof (induction ks arbitrary: j)
  case Nil
  then show ?case by simp
next
  case (Cons k ks)
  show ?case
  proof (cases "kw_test rnd (pos st) k")
    case True
    then show ?thesis using Cons.prems by auto
  next
    case False
    then have "kw_loop rnd ks (j + 1) st = (j', st')" using Cons.prems by simp
    from Cons.IH [OF this] show ?thesis by (auto simp: nth_Cons')
  qed
qed

lemma br_scs_ok:
  "br_scs syn rnd n st = Some (Break st') \<Longrightarrow> n = int (length rnd) \<Longrightarrow> scan_ok rnd st \<Longrightarrow>
     scan_ok rnd st'"
  by (auto simp: br_scs_def Let_def scan_ok_def memset_length split: if_splits)

lemma br_scs_Break: "br_scs syn rnd n st = Some r \<Longrightarrow> \<exists>st'. r = Break st'"
  by (auto simp: br_scs_def Let_def split: if_splits)

lemma br_mlc_ok:
  assumes "br_mlc syn rnd st = Some r" and "scan_ok rnd st" and "pos st < length rnd"
  shows "\<exists>st'. r = Next st' \<and> scan_ok rnd st'"
proof -
  have f: "substr rnd (pos st) (length d) = d \<Longrightarrow> pos st + length d \<le> length rnd" for d
    using substr_fits [of rnd "pos st" "length d" d] assms(3) by simp
  show ?thesis using assms f
    by (auto simp: br_mlc_def Let_def scan_ok_def memset_length split: if_splits)
qed

lemma br_str_ok:
  assumes "br_str syn n c st = Some r" and "scan_ok rnd st" and "pos st < length rnd"
    and "n = int (length rnd)"
  shows "\<exists>st'. r = Next st' \<and> scan_ok rnd st'"
  using assms
  by (auto simp: br_str_def Let_def scan_ok_def split: if_splits option.splits)

lemma br_num_ok:
  assumes "br_num syn c st = Some r" and "scan_ok rnd st" and "pos st < length rnd"
  shows "\<exists>st'. r = Next st' \<and> scan_ok rnd st'"
proof -
  have "Suc (pos st) \<le> length rnd" using assms(3) by simp
  then show ?thesis using assms(1,2)
    by (auto simp: br_num_def Let_def scan_ok_def split: if_splits)
qed

lemma br_kw_ok:
  assumes "scan_ok rnd st" and "pos st < length rnd"
  shows "\<exists>st'. br_kw oob syn rnd c st = Next st' \<and> scan_ok rnd st'"
proof (cases "prevSep st")
  case False
  then show ?thesis using assms by (simp add: br_kw_def normal_step_def scan_ok_def)
next
  case True
  obtain j st1 where k: "kw_loop rnd (keywords_syn syn) 0 st = (j, st1)"
    by (cases "kw_loop rnd (keywords_syn syn) 0 st")
  have ok1: "scan_ok rnd st1" using kw_loop_ok [OF k assms(1)] .
  show ?thesis
  proof (cases "kw_nonempty oob (keywords_syn syn) j")
    case True
    then show ?thesis using \<open>prevSep st\<close> k ok1 by (simp add: br_kw_def scan_ok_def)
  next
    case False
    have "pos st1 = pos st"
      using kw_loop_result [OF k] False
      by (auto simp: kw_nonempty_def nth_opt_def kw_len_def kw2_def)
    then show ?thesis using \<open>prevSep st\<close> k False assms ok1
      by (simp add: br_kw_def normal_step_def scan_ok_def)
  qed
qed

lemma scan_step_ok:
  assumes "scan_ok rnd st" and "int (pos st) < n" and "n = int (length rnd)"
  shows "\<exists>st'. (scan_step oob syn rnd n st = Next st' \<or> scan_step oob syn rnd n st = Break st')
           \<and> scan_ok rnd st'"
proof -
  have p: "pos st < length rnd" using assms(2,3) by simp
  then have a: "at rnd (int (pos st)) = Inr (rnd ! pos st)" by (simp add: at_def)
  let ?c = "rnd ! pos st"
  show ?thesis
  proof (cases "pre_keyword syn rnd n ?c st")
    case None
    then show ?thesis using br_kw_ok [OF assms(1) p, of oob syn ?c] a
      by (auto simp: scan_step_def)
  next
    case (Some r)
    have "\<exists>st'. (r = Next st' \<or> r = Break st') \<and> scan_ok rnd st'"
      using Some br_scs_ok [of syn rnd n st] br_scs_Break [of syn rnd n st]
        br_mlc_ok [OF _ assms(1) p, of syn] br_str_ok [OF _ assms(1) p assms(3), of syn ?c]
        br_num_ok [OF _ assms(1) p, of syn ?c] assms(1,3)
      by (auto simp: pre_keyword_def split: option.splits)
    then show ?thesis using Some a by (auto simp: scan_step_def)
  qed
qed

lemma scan_loop_ok:
  "scan_ok rnd st \<Longrightarrow> n = int (length rnd) \<Longrightarrow>
     \<exists>st'. scan_loop oob syn rnd n st = Inr st' \<and> scan_ok rnd st'"
proof (induction oob syn rnd n st rule: scan_loop.induct)
  case (1 oob syn rnd n st)
  show ?case
  proof (cases "int (pos st) < n")
    case False
    then show ?thesis using "1.prems" by (subst scan_loop.simps) simp
  next
    case True
    from scan_step_ok [OF "1.prems"(1) True "1.prems"(2), of oob syn] obtain st1 where
      s: "scan_step oob syn rnd n st = Next st1 \<or> scan_step oob syn rnd n st = Break st1"
      and ok: "scan_ok rnd st1" by blast
    from s show ?thesis
    proof
      assume b: "scan_step oob syn rnd n st = Break st1"
      then show ?thesis using True ok by (subst scan_loop.simps) simp
    next
      assume nx: "scan_step oob syn rnd n st = Next st1"
      from "1.IH" [OF True nx ok "1.prems"(2)] show ?thesis
        using True nx by (subst scan_loop.simps) simp
    qed
  qed
qed

lemma scan_turns_bound: "scan_turns oob syn rnd n st \<le> scan_measure n st"
proof (induction oob syn rnd n st rule: scan_turns.induct)
  case (1 oob syn rnd n st)
  show ?case
  proof (cases "int (pos st) < n")
    case False
    then show ?thesis by (subst scan_turns.simps) simp
  next
    case True
    then have two: "2 \<le> scan_measure n st" by (simp add: scan_measure_def)
    show ?thesis
    proof (cases "scan_step oob syn rnd n st")
      case (Next st')
      from "1.IH" [OF True Next] scan_step_decreases [OF Next True]
      show ?thesis using True Next by (subst scan_turns.simps) simp
    next
      case (Break st')
      then show ?thesis using True two by (subst scan_turns.simps) simp
    next
      case Throw
      then show ?thesis using True two by (subst scan_turns.simps) simp
    qed
  qed
qed

lemma scan_ends_within_the_row:
  assumes "n = int (length rnd)"
  shows "\<exists>st'. scan_loop oob syn rnd n (scan_init inC n) = Inr st'
           \<and> pos st' \<le> length rnd \<and> length (shl st') = length rnd
           \<and> scan_turns oob syn rnd n (scan_init inC n) \<le> 2 * length rnd + 1"
proof -
  have ok: "scan_ok rnd (scan_init inC n)" using assms by (simp add: scan_ok_def scan_init_def)
  from scan_loop_ok [OF ok assms, of oob syn] obtain st' where
    "scan_loop oob syn rnd n (scan_init inC n) = Inr st'" "scan_ok rnd st'" by blast
  moreover have "scan_measure n (scan_init inC n) = 2 * length rnd + 1"
    using assms by (simp add: scan_measure_def scan_init_def)
  ultimately show ?thesis using scan_turns_bound [of oob syn rnd n "scan_init inC n"]
    by (auto simp: scan_ok_def)
qed

text \<open>
  When the read behind the keywords compares as an empty string, and no keyword is
  just the marker, every turn that goes round again moves the position forward.
\<close>

lemma br_kw_advances:
  assumes "br_kw False syn rnd c st = Next st'"
    and "\<forall>k \<in> set (keywords_syn syn). 0 < kw_len k"
  shows "pos st < pos st'"
proof (cases "prevSep st")
  case False
  then show ?thesis using assms(1) by (auto simp: br_kw_def normal_step_def)
next
  case True
  obtain j st1 where k: "kw_loop rnd (keywords_syn syn) 0 st = (j, st1)"
    by (cases "kw_loop rnd (keywords_syn syn) 0 st")
  from kw_loop_result [OF k]
  have r: "(j = length (keywords_syn syn) \<and> st1 = st)
           \<or> (j < length (keywords_syn syn) \<and> pos st1 = pos st + kw_len (keywords_syn syn ! j))"
    by auto
  show ?thesis
  proof (cases "kw_nonempty False (keywords_syn syn) j")
    case ne: True
    then have j: "j < length (keywords_syn syn)" by (auto simp: kw_nonempty_def nth_opt_def split: if_splits)
    then have "0 < kw_len (keywords_syn syn ! j)" using assms(2) by simp
    moreover have "st' = st1\<lparr>prevSep := False\<rparr>" using assms(1) True k ne by (simp add: br_kw_def)
    ultimately show ?thesis using r j by auto
  next
    case False
    then have "st' = st1\<lparr>prevSep := isSeparator c, pos := pos st1 + 1\<rparr>"
      using assms(1) True k by (simp add: br_kw_def normal_step_def)
    then show ?thesis using r by auto
  qed
qed

lemma scan_step_advances_when_read_is_empty:
  assumes "scan_step False syn rnd n st = Next st'"
    and "\<forall>k \<in> set (keywords_syn syn). 0 < kw_len k"
  shows "pos st < pos st'"
  using assms pre_keyword_advances [of syn rnd n _ st st'] br_kw_advances [of syn rnd _ st st']
  by (auto simp: scan_step_def split: sum.splits option.splits)

lemma C_keywords_positive: "\<forall>k \<in> set (keywords_syn C_syntax). 0 < kw_len k"
  by code_simp

text \<open>
  C3. Every turn of the scan loop should move the scan position forward. On the row
  \<^verbatim>\<open>a\<close> under the C syntax the first turn reaches the keyword test, no keyword
  matches, and \<^verbatim>\<open>keywords[j] != ""\<close> reads behind the vector; when that read does not
  compare as an empty string the turn clears \<^verbatim>\<open>prevSep\<close> and goes round again with
  the position still 0.
\<close>

theorem scan_turn_without_advance:
  "scan_step True C_syntax ''a'' 1 (scan_init False 1)
     = Next ((scan_init False 1)\<lparr>prevSep := False\<rparr>)
   \<and> pos (scan_init False 1) = 0"
  by code_simp

subsection \<open>What the operations leave alone\<close>

lemma set_row_frame:
  "layout_of r = layout_of (rows ed ! p) \<Longrightarrow>
     \<exists>rs. set_row ed p r = ed\<lparr>rows := rs\<rparr> \<and> map layout_of rs = map layout_of (rows ed)"
  by (rule exI [of _ "(rows ed)[p := r]"]) (simp add: set_row_def map_update_same)

lemma syntax_pass_frame:
  assumes "syntax_pass oob ed p = Inr (ed', nxt)"
  shows "\<exists>rs. ed' = ed\<lparr>rows := rs\<rparr> \<and> map layout_of rs = map layout_of (rows ed)"
proof (cases "syntax_hl ed")
  case None
  then have "ed' = set_row ed p ((rows ed ! p)\<lparr>hl := replicate (nat (rsize (rows ed ! p))) HL_NORMAL\<rparr>)"
    using assms by (simp add: syntax_pass_def Let_def)
  then show ?thesis using set_row_frame [of _ ed p] by (simp add: layout_of_def)
next
  case (Some syn)
  have "\<exists>st::Scan. ed' = set_row ed p ((rows ed ! p)\<lparr>hl := shl st, hl_open_comment := inComment st\<rparr>)"
    using assms Some unfolding syntax_pass_def Let_def
    by (clarsimp simp: bindE_Inr) blast
  then show ?thesis using set_row_frame [of _ ed p] by (auto simp: layout_of_def)
qed

lemma updateSyntax_frame:
  "updateSyntax f oob ed p = Inr ed' \<Longrightarrow>
     \<exists>rs. ed' = ed\<lparr>rows := rs\<rparr> \<and> map layout_of rs = map layout_of (rows ed)"
proof (induction f arbitrary: ed p)
  case 0
  then show ?case by simp
next
  case (Suc f)
  from Suc.prems obtain e1 nxt where sp: "syntax_pass oob ed p = Inr (e1, nxt)"
    and rest: "(case nxt of None \<Rightarrow> Inr e1 | Some q \<Rightarrow> updateSyntax f oob e1 q) = Inr ed'"
    by (auto simp: bindE_Inr)
  from syntax_pass_frame [OF sp] obtain rs1 where
    e1: "e1 = ed\<lparr>rows := rs1\<rparr>" and m1: "map layout_of rs1 = map layout_of (rows ed)" by blast
  show ?case
  proof (cases nxt)
    case None
    then show ?thesis using rest e1 m1 by auto
  next
    case (Some q)
    then have "updateSyntax f oob e1 q = Inr ed'" using rest by simp
    from Suc.IH [OF this] obtain rs2 where
      "ed' = e1\<lparr>rows := rs2\<rparr>" and "map layout_of rs2 = map layout_of (rows e1)" by blast
    then show ?thesis using e1 m1 by (intro exI [of _ rs2]) simp
  qed
qed

lemma layout_text: "map layout_of a = map layout_of b \<Longrightarrow> map text_of a = map text_of b"
proof -
  assume h: "map layout_of a = map layout_of b"
  have t: "text_of = (\<lambda>(i, s, c, n, r). (i, s, c)) \<circ> layout_of"
    by (rule ext) (simp add: text_of_def layout_of_def)
  have "map text_of a = map (\<lambda>(i, s, c, n, r). (i, s, c)) (map layout_of a)"
    unfolding t by simp
  also have "\<dots> = map (\<lambda>(i, s, c, n, r). (i, s, c)) (map layout_of b)" using h by simp
  also have "\<dots> = map text_of b" unfolding t by simp
  finally show ?thesis .
qed

lemma text_idx: "map idx rs = map fst (map text_of rs)"
  by (simp add: text_of_def comp_def)

lemma text_chars: "map chars rs = map (\<lambda>t. snd (snd t)) (map text_of rs)"
  by (simp add: text_of_def comp_def)

lemma layout_idx: "map idx rs = map fst (map layout_of rs)"
  by (simp add: layout_of_def comp_def)

lemma update_frame:
  assumes "update f oob ed i = Inr ed'"
  shows "\<exists>rs. ed' = ed\<lparr>rows := rs\<rparr> \<and> map text_of rs = map text_of (rows ed)"
proof -
  from assms obtain row rnd n where
    row: "at (rows ed) i = Inr row" and
    us: "updateSyntax f oob (set_row ed (nat i) (row\<lparr>render := rnd, rsize := n\<rparr>)) (nat i) = Inr ed'"
    by (auto simp: update_def bindE_Inr)
  let ?e1 = "set_row ed (nat i) (row\<lparr>render := rnd, rsize := n\<rparr>)"
  have r: "row = rows ed ! nat i" using row by (auto simp: at_def split: if_splits)
  have m1: "map text_of (rows ?e1) = map text_of (rows ed)"
    unfolding set_row_def using r by (simp add: map_update_same text_of_def)
  from updateSyntax_frame [OF us] obtain rs where
    e: "ed' = ?e1\<lparr>rows := rs\<rparr>" and m: "map layout_of rs = map layout_of (rows ?e1)" by blast
  have "map text_of rs = map text_of (rows ed)" using layout_text [OF m] m1 by simp
  moreover have "ed' = ed\<lparr>rows := rs\<rparr>" using e by (simp add: set_row_def)
  ultimately show ?thesis by blast
qed

lemma insertRow_frame:
  assumes "insertRow f oob ed s a = Inr ed'" and "0 \<le> a" and "a \<le> int (length (rows ed))"
  shows "\<exists>rs. ed' = ed\<lparr>rows := rs, dirty := dirty ed + 1\<rparr>
           \<and> map text_of rs = take (nat a) (map text_of (rows ed)) @ [text_of (new_row s a)]
                               @ drop (nat a) (map text_of (rows ed))"
proof -
  let ?e0 = "ed\<lparr>rows := take (nat a) (rows ed) @ [new_row s a] @ drop (nat a) (rows ed)\<rparr>"
  from assms obtain e1 where u: "update f oob ?e0 a = Inr e1" and e': "ed' = e1\<lparr>dirty := dirty e1 + 1\<rparr>"
    by (auto simp: insertRow_def bindE_Inr)
  from update_frame [OF u] obtain rs where
    e1: "e1 = ?e0\<lparr>rows := rs\<rparr>" and m: "map text_of rs = map text_of (rows ?e0)" by blast
  have "ed' = ed\<lparr>rows := rs, dirty := dirty ed + 1\<rparr>" using e' e1 by simp
  moreover have "map text_of rs = take (nat a) (map text_of (rows ed)) @ [text_of (new_row s a)]
                               @ drop (nat a) (map text_of (rows ed))"
    using m by (simp add: take_map drop_map)
  ultimately show ?thesis by blast
qed

lemma rowAppendString_frame:
  assumes "rowAppendString f oob ed p s = Inr ed'"
  shows "\<exists>rs. ed' = ed\<lparr>rows := rs, dirty := dirty ed + 1\<rparr>
           \<and> map chars rs = (map chars (rows ed))[p := chars (rows ed ! p) @ s]"
proof -
  let ?row' = "(rows ed ! p)\<lparr>chars := chars (rows ed ! p) @ s,
                               size_row := size_row (rows ed ! p) + int (length s)\<rparr>"
  from assms obtain e1 where u: "update f oob (set_row ed p ?row') (idx ?row') = Inr e1"
    and e': "ed' = e1\<lparr>dirty := dirty e1 + 1\<rparr>"
    by (auto simp: rowAppendString_def Let_def bindE_Inr)
  from update_frame [OF u] obtain rs where
    e1: "e1 = (set_row ed p ?row')\<lparr>rows := rs\<rparr>"
    and t: "map text_of rs = map text_of (rows (set_row ed p ?row'))" by blast
  have "map chars rs = map chars (rows (set_row ed p ?row'))" unfolding text_chars t ..
  then have "map chars rs = (map chars (rows ed))[p := chars (rows ed ! p) @ s]"
    by (simp add: rows_set_row map_update)
  moreover have "ed' = ed\<lparr>rows := rs, dirty := dirty ed + 1\<rparr>"
    using e' e1 by (simp add: set_row_def)
  ultimately show ?thesis by blast
qed

subsection \<open>Row indices\<close>

text \<open>
  \<^verbatim>\<open>_insertRow\<close> in front of an existing row leaves that row's \<^verbatim>\<open>idx\<close> as it was,
  one position further down; \<^verbatim>\<open>_delRow\<close> and an insertion at the end keep every
  \<^verbatim>\<open>idx\<close> equal to its position.
\<close>

lemma insertRow_not_shifted:
  assumes "insertRow f oob ed s a = Inr ed'" and "0 \<le> a" and "a < int (length (rows ed))"
  shows "length (rows ed') = length (rows ed) + 1
         \<and> idx (rows ed' ! nat a) = a
         \<and> idx (rows ed' ! (nat a + 1)) = idx (rows ed ! nat a)"
proof -
  from insertRow_frame [OF assms(1,2)] assms(3) obtain rs where
    e: "ed' = ed\<lparr>rows := rs, dirty := dirty ed + 1\<rparr>" and
    m: "map text_of rs = take (nat a) (map text_of (rows ed)) @ [text_of (new_row s a)]
                           @ drop (nat a) (map text_of (rows ed))"
    by auto
  have l: "length rs = length (rows ed) + 1"
    using arg_cong [OF m, of length] assms(2,3) by simp
  have i: "map idx rs = take (nat a) (map idx (rows ed)) @ [a] @ drop (nat a) (map idx (rows ed))"
    unfolding text_idx m by (simp add: take_map drop_map text_of_def new_row_def)
  have la: "nat a < length (rows ed)" using assms(2,3) by linarith
  have "map idx rs ! nat a = a" unfolding i using la by (simp add: nth_append)
  moreover have "map idx rs ! (nat a + 1) = idx (rows ed ! nat a)"
    unfolding i using la by (simp add: nth_append)
  ultimately show ?thesis using l la e by simp
qed

lemma delRow_idx_ok: "idx_ok ed \<Longrightarrow> idx_ok (delRow ed a)"
proof (cases "a < 0 \<or> a \<ge> int (length (rows ed))")
  case True
  assume "idx_ok ed"
  then show ?thesis using True by (simp add: delRow_def)
next
  case False
  assume ok: "idx_ok ed"
  define n where "n = nat a"
  have n: "n < length (rows ed)" using False by (simp add: n_def) linarith
  have "map idx (rows (delRow ed a))
        = take n (map idx (rows ed)) @ map (\<lambda>i. i - 1) (drop (Suc n) (map idx (rows ed)))"
    using False by (simp add: delRow_def n_def take_map drop_map comp_def)
  also have "\<dots> = map int [0 ..< n] @ map (\<lambda>i. i - 1) (map int [Suc n ..< length (rows ed)])"
    using ok n unfolding idx_ok_def by (simp add: take_map drop_map)
  also have "map (\<lambda>i. i - 1) (map int [Suc n ..< length (rows ed)]) = map int [n ..< length (rows ed) - 1]"
    by (rule nth_equalityI) (use n in auto)
  also have "map int [0 ..< n] @ map int [n ..< length (rows ed) - 1] = map int [0 ..< length (rows ed) - 1]"
  proof -
    have "[0 ..< n + (length (rows ed) - 1 - n)] = [0 ..< n] @ [n ..< n + (length (rows ed) - 1 - n)]"
      by (rule upt_add_eq_append) simp
    then have "[0 ..< length (rows ed) - 1] = [0 ..< n] @ [n ..< length (rows ed) - 1]"
      using n by simp
    then show ?thesis by simp
  qed
  finally show ?thesis using False n by (simp add: idx_ok_def delRow_def n_def)
qed

lemma insertRow_end:
  assumes "insertRow f oob ed s (int (length (rows ed))) = Inr ed'"
  shows "map text_of (rows ed') = map text_of (rows ed) @ [(int (length (rows ed)), int (length s), s)]"
  using insertRow_frame [OF assms] by (auto simp: text_of_def new_row_def)

lemma insertRow_end_idx_ok:
  assumes "insertRow f oob ed s (int (length (rows ed))) = Inr ed'" and "idx_ok ed"
  shows "idx_ok ed'"
proof -
  have l: "length (rows ed') = Suc (length (rows ed))"
    using arg_cong [OF insertRow_end [OF assms(1)], of length] by simp
  show ?thesis
    using assms(2) unfolding idx_ok_def l text_idx insertRow_end [OF assms(1)] by simp
qed

lemma idx_ok_nth: "idx_ok ed \<Longrightarrow> p < length (rows ed) \<Longrightarrow> idx (rows ed ! p) = int p"
proof -
  assume a: "idx_ok ed" and p: "p < length (rows ed)"
  have "map idx (rows ed) ! p = map int [0 ..< length (rows ed)] ! p"
    using a by (simp add: idx_ok_def)
  then show ?thesis using p by simp
qed

text \<open>
  C2. After an insertion every row's \<^verbatim>\<open>idx\<close> should be its position.
  \<^verbatim>\<open>_insertRow\<close> sets the \<^verbatim>\<open>idx\<close> of the new row and leaves the rows behind it as
  they were: inserting a row in front of the only row of a buffer, directly or by
  Return at the start of the line, gives two rows that both have \<^verbatim>\<open>idx\<close> 0.
\<close>

theorem insertRow_leaves_later_idx:
  "map_sum id (\<lambda>e. map idx (rows e))
     (bindE (open_file 1 False Editor_init ''notes.txt'' [CHR ''x'', LF])
        (\<lambda>e. insertRow 1 False e ''n'' 0))
     = Inr [0, 0]
   \<and> map_sum id (\<lambda>e. map idx (rows e))
       (bindE (open_file 1 False Editor_init ''notes.txt'' [CHR ''x'', LF])
          (\<lambda>e. insertNewLine 1 False e))
     = Inr [0, 0]"
  by code_simp

subsection \<open>The cascade\<close>

text \<open>
  In a buffer where every \<^verbatim>\<open>idx\<close> is the position of its row, \<^verbatim>\<open>_updateSyntax\<close> on
  row \<open>p\<close> scans the rows \<open>p, p + 1, \<dots>, p + k\<close> in this order, each of them but the
  last changes its open-comment state, the last one does not or is the last row of the
  buffer, and the rows outside this range are as they were.
\<close>

lemma layout_ok_alt:
  "layout_ok ed \<longleftrightarrow>
     (\<forall>t \<in> set (map layout_of (rows ed)). case t of (i, s, c, n, r) \<Rightarrow> s = int (length c) \<and> n = int (length r))"
  by (simp add: layout_ok_def layout_of_def)

lemma layout_ok_cong:
  "map layout_of (rows e1) = map layout_of (rows e2) \<Longrightarrow> layout_ok e1 = layout_ok e2"
  unfolding layout_ok_alt by simp

lemma idx_ok_cong:
  assumes "map layout_of (rows e1) = map layout_of (rows e2)"
  shows "idx_ok e1 = idx_ok e2"
proof -
  have "length (rows e1) = length (rows e2)" using arg_cong [OF assms, of length] by simp
  then show ?thesis unfolding idx_ok_def layout_idx assms by simp
qed

lemma set_row_layout:
  "layout_of r = layout_of (rows ed ! p) \<Longrightarrow>
     map layout_of (rows (set_row ed p r)) = map layout_of (rows ed)"
  by (simp add: rows_set_row map_update_same)

lemma syntax_pass_ok:
  assumes lay: "layout_ok ed" and io: "idx_ok ed" and p: "p < length (rows ed)"
  shows "\<exists>r' nxt. syntax_pass oob ed p = Inr (set_row ed p r', nxt)
           \<and> layout_of r' = layout_of (rows ed ! p) \<and> hl_ok_row r'
           \<and> (nxt = None \<or> (nxt = Some (Suc p) \<and> Suc p < length (rows ed)))
           \<and> (nxt = None \<longleftrightarrow> hl_open_comment r' = hl_open_comment (rows ed ! p)
                                \<or> \<not> Suc p < length (rows ed))"
proof -
  let ?row = "rows ed ! p"
  have i: "idx ?row = int p" using idx_ok_nth [OF io p] .
  have rs: "rsize ?row = int (length (render ?row))"
    using lay p by (simp add: layout_ok_def)
  show ?thesis
  proof (cases "syntax_hl ed")
    case None
    let ?r' = "?row\<lparr>hl := replicate (nat (rsize ?row)) HL_NORMAL\<rparr>"
    have "syntax_pass oob ed p = Inr (set_row ed p ?r', None)"
      using None by (simp add: syntax_pass_def Let_def)
    moreover have "layout_of ?r' = layout_of ?row" by (simp add: layout_of_def)
    moreover have "hl_ok_row ?r'" using rs by (simp add: hl_ok_row_def)
    ultimately show ?thesis by (intro exI [of _ ?r'] exI [of _ None]) simp
  next
    case (Some syn)
    have "\<exists>inC. (if idx ?row > 0
                 then bindE (at (rows ed) (idx ?row - 1)) (\<lambda>r. Inr (hl_open_comment r))
                 else Inr False) = Inr inC"
    proof (cases "idx ?row > 0")
      case True
      then have "at (rows ed) (idx ?row - 1) = Inr (rows ed ! nat (idx ?row - 1))"
        using i p by (simp add: at_def)
      then show ?thesis using True by (simp add: bindE_def)
    next
      case False
      then show ?thesis by auto
    qed
    then obtain inC where inC: "(if idx ?row > 0
                 then bindE (at (rows ed) (idx ?row - 1)) (\<lambda>r. Inr (hl_open_comment r))
                 else Inr False) = Inr inC" ..
    have "scan_ok (render ?row) (scan_init inC (rsize ?row))"
      using rs by (simp add: scan_ok_def scan_init_def)
    from scan_loop_ok [OF this rs, of oob syn] obtain st where
      st: "scan_loop oob syn (render ?row) (rsize ?row) (scan_init inC (rsize ?row)) = Inr st"
      and ok: "scan_ok (render ?row) st" by blast
    let ?r' = "?row\<lparr>hl := shl st, hl_open_comment := inComment st\<rparr>"
    let ?nxt = "if hl_open_comment ?row \<noteq> inComment st \<and> lt_size (idx ?row + 1) (rows (set_row ed p ?r'))
                then Some (nat (idx ?row + 1)) else None"
    have sp: "syntax_pass oob ed p = Inr (set_row ed p ?r', ?nxt)"
      using Some inC st by (simp add: syntax_pass_def Let_def bindE_def)
    have l: "layout_of ?r' = layout_of ?row" by (simp add: layout_of_def)
    have h: "hl_ok_row ?r'" using ok by (simp add: hl_ok_row_def scan_ok_def)
    have n: "nat (idx ?row + 1) = Suc p" using i by simp
    have lt: "lt_size (idx ?row + 1) (rows (set_row ed p ?r')) \<longleftrightarrow> Suc p < length (rows ed)"
      using i by (auto simp: lt_size_def set_row_def)
    show ?thesis
      apply (intro exI [of _ ?r'] exI [of _ ?nxt])
      using sp l h n lt by auto
  qed
qed

lemma updateSyntax_ok:
  assumes "layout_ok ed" and "idx_ok ed" and "p < length (rows ed)"
    and "length (rows ed) - p \<le> f"
  shows "\<exists>ed' k. updateSyntax f oob ed p = Inr ed'
           \<and> updateSyntax_calls f oob ed p = [p ..< Suc (p + k)] \<and> p + k < length (rows ed)
           \<and> map layout_of (rows ed') = map layout_of (rows ed)
           \<and> (\<forall>q < length (rows ed).
                 (q < p \<or> p + k < q \<longrightarrow> rows ed' ! q = rows ed ! q)
                 \<and> (p \<le> q \<and> q \<le> p + k \<longrightarrow> hl_ok_row (rows ed' ! q))
                 \<and> (p \<le> q \<and> q < p + k \<longrightarrow>
                      hl_open_comment (rows ed' ! q) \<noteq> hl_open_comment (rows ed ! q)))
           \<and> (hl_open_comment (rows ed' ! (p + k)) = hl_open_comment (rows ed ! (p + k))
                \<or> Suc (p + k) = length (rows ed))"
  using assms
proof (induction f arbitrary: ed p)
  case 0
  then show ?case by simp
next
  case (Suc f)
  let ?row = "rows ed ! p"
  from syntax_pass_ok [OF Suc.prems(1,2,3), of oob] obtain r' nxt where
    sp: "syntax_pass oob ed p = Inr (set_row ed p r', nxt)"
    and l: "layout_of r' = layout_of ?row" and h: "hl_ok_row r'"
    and nx: "nxt = None \<or> (nxt = Some (Suc p) \<and> Suc p < length (rows ed))"
    and ch: "nxt = None \<longleftrightarrow> hl_open_comment r' = hl_open_comment ?row \<or> \<not> Suc p < length (rows ed)"
    by blast
  let ?e1 = "set_row ed p r'"
  have m1: "map layout_of (rows ?e1) = map layout_of (rows ed)" using set_row_layout [OF l] .
  have len1: "length (rows ?e1) = length (rows ed)" by (simp add: rows_set_row)
  have p1: "rows ?e1 ! p = r'" using Suc.prems(3) by (simp add: rows_set_row)
  have o1: "q \<noteq> p \<Longrightarrow> rows ?e1 ! q = rows ed ! q" for q by (simp add: rows_set_row)
  show ?case
  proof (cases nxt)
    case None
    have "updateSyntax (Suc f) oob ed p = Inr ?e1" using sp None by (simp add: bindE_def)
    moreover have "updateSyntax_calls (Suc f) oob ed p = [p ..< Suc (p + 0)]"
      using sp None by simp
    moreover have "hl_open_comment (rows ?e1 ! (p + 0)) = hl_open_comment (rows ed ! (p + 0))
                   \<or> Suc (p + 0) = length (rows ed)"
      using ch None p1 Suc.prems(3) by auto
    ultimately show ?thesis
      apply (intro exI [of _ ?e1] exI [of _ 0])
      using m1 p1 o1 h Suc.prems(3) by auto
  next
    case (Some q)
    then have q: "q = Suc p" and sp': "Suc p < length (rows ed)" using nx by auto
    have chg: "hl_open_comment r' \<noteq> hl_open_comment ?row" using ch Some by auto
    have lay1: "layout_ok ?e1" using layout_ok_cong [OF m1] Suc.prems(1) by simp
    have io1: "idx_ok ?e1" using idx_ok_cong [OF m1] Suc.prems(2) by simp
    have "length (rows ?e1) - Suc p \<le> f" using Suc.prems(4) len1 by simp
    from Suc.IH [OF lay1 io1 _ this] sp' len1 obtain ed' k where
      us: "updateSyntax f oob ?e1 (Suc p) = Inr ed'"
      and cs: "updateSyntax_calls f oob ?e1 (Suc p) = [Suc p ..< Suc (Suc p + k)]"
      and kb: "Suc p + k < length (rows ed)"
      and m2: "map layout_of (rows ed') = map layout_of (rows ?e1)"
      and fr: "\<forall>q < length (rows ed).
                 (q < Suc p \<or> Suc p + k < q \<longrightarrow> rows ed' ! q = rows ?e1 ! q)
                 \<and> (Suc p \<le> q \<and> q \<le> Suc p + k \<longrightarrow> hl_ok_row (rows ed' ! q))
                 \<and> (Suc p \<le> q \<and> q < Suc p + k \<longrightarrow>
                      hl_open_comment (rows ed' ! q) \<noteq> hl_open_comment (rows ?e1 ! q))"
      and la: "hl_open_comment (rows ed' ! (Suc p + k)) = hl_open_comment (rows ?e1 ! (Suc p + k))
                \<or> Suc (Suc p + k) = length (rows ed)"
      by auto
    have a: "updateSyntax (Suc f) oob ed p = Inr ed'" using sp Some q us by (simp add: bindE_def)
    have b: "updateSyntax_calls (Suc f) oob ed p = [p ..< Suc (p + Suc k)]"
      using sp Some q cs by (simp add: upt_conv_Cons)
    have c: "map layout_of (rows ed') = map layout_of (rows ed)" using m1 m2 by simp
    have d: "\<forall>q < length (rows ed).
                 (q < p \<or> p + Suc k < q \<longrightarrow> rows ed' ! q = rows ed ! q)
                 \<and> (p \<le> q \<and> q \<le> p + Suc k \<longrightarrow> hl_ok_row (rows ed' ! q))
                 \<and> (p \<le> q \<and> q < p + Suc k \<longrightarrow>
                      hl_open_comment (rows ed' ! q) \<noteq> hl_open_comment (rows ed ! q))"
    proof (intro allI impI)
      fix q assume ql: "q < length (rows ed)"
      show "(q < p \<or> p + Suc k < q \<longrightarrow> rows ed' ! q = rows ed ! q)
                 \<and> (p \<le> q \<and> q \<le> p + Suc k \<longrightarrow> hl_ok_row (rows ed' ! q))
                 \<and> (p \<le> q \<and> q < p + Suc k \<longrightarrow>
                      hl_open_comment (rows ed' ! q) \<noteq> hl_open_comment (rows ed ! q))"
      proof (cases "q = p")
        case True
        have "rows ed' ! p = r'" using fr ql True p1 by auto
        then show ?thesis using True h chg by simp
      next
        case False
        then show ?thesis using fr ql o1 [OF False] by auto
      qed
    qed
    have e: "hl_open_comment (rows ed' ! (p + Suc k)) = hl_open_comment (rows ed ! (p + Suc k))
                \<or> Suc (p + Suc k) = length (rows ed)"
      using la o1 [of "Suc p + k"] by simp
    show ?thesis
      apply (intro exI [of _ ed'] exI [of _ "Suc k"])
      using a b c d e kb by simp
  qed
qed

text \<open>
  C8. A row whose scan changes its open-comment state should hand over to the rows
  behind it. In the file \<^verbatim>\<open>a.c\<close> with the lines \<^verbatim>\<open>/*\<close>, \<^verbatim>\<open>x\<close>, \<^verbatim>\<open>y\<close>, after Return
  at the start of the file and two steps down, the key \<^verbatim>\<open>z\<close> re-derives the row at
  position 2 (the \<^verbatim>\<open>idx\<close> of the row under the cursor); the scan of that row changes
  its open-comment state, its own \<^verbatim>\<open>idx\<close> is 1, and the recursion on
  \<^verbatim>\<open>_rows.at(row.idx + 1)\<close> scans position 2 again: the rows scanned are 2 and 2.
  Afterwards the row \<^verbatim>\<open>x\<close> behind the opened comment is highlighted as normal text.
\<close>

theorem cascade_rescans_the_same_row:
  "bindE comment_story
     (\<lambda>e. Inr (cy e, cx e, map idx (rows e),
               rowInsertChar_calls 2 False e (nat (cy e)) (cx e) (CHR ''z'')))
     = Inr (3, 0, [0, 0, 1, 2], [2, 2])
   \<and> map_sum id (\<lambda>e. map (\<lambda>r. (chars r, hl r, hl_open_comment r)) (rows e))
       (bindE comment_story (\<lambda>e. insertChar 2 False e (CHR ''z'')))
     = Inr [([], [], False), (''/*'', [HL_MLCOMMENT, HL_MLCOMMENT], True),
            (''x'', [HL_NORMAL], False), (''zy'', [HL_MLCOMMENT], True)]"
  by code_simp

subsection \<open>Rendered form\<close>

text \<open>
  In a buffer that satisfies \<open>buffer_ok\<close>, \<^verbatim>\<open>_update\<close>, the three row operations, an
  insertion at the end and \<^verbatim>\<open>_delRow\<close> return and keep \<open>buffer_ok\<close>: every row has one
  highlight byte for each rendered byte and a rendered form derived from its bytes.
\<close>

lemma pad_loop_length:
  "i = int (length rnd) \<Longrightarrow> pad_loop ts rnd i = (rnd', i') \<Longrightarrow> i' = int (length rnd')"
proof (induction ts rnd i rule: pad_loop.induct)
  case (1 ts rnd i)
  show ?case
  proof (cases "ts \<noteq> 0 \<and> c_rem i ts \<noteq> 0")
    case True
    then have "pad_loop ts (rnd @ '' '') (i + 1) = (rnd', i')"
      using "1.prems"(2) by (subst (asm) pad_loop.simps) simp
    then show ?thesis using "1.IH" [OF True] "1.prems"(1) by simp
  next
    case False
    then show ?thesis using "1.prems" by (subst (asm) pad_loop.simps) auto
  qed
qed

lemma render_loop_ok:
  "0 \<le> j \<Longrightarrow> sz = int (length cs) \<Longrightarrow> i = int (length rnd0) \<Longrightarrow>
     \<exists>rnd. render_loop ts cs sz j rnd0 i = Inr (rnd, int (length rnd))"
proof (induction ts cs sz j rnd0 i rule: render_loop.induct)
  case (1 ts cs sz j rnd0 i)
  show ?case
  proof (cases "j < sz")
    case False
    then show ?thesis using "1.prems" by (subst render_loop.simps) simp
  next
    case True
    then have a: "at cs j = Inr (cs ! nat j)" using "1.prems" by (simp add: at_def)
    show ?thesis
    proof (cases "cs ! nat j = TAB")
      case t: True
      obtain r1 i1 where pl: "pad_loop ts (rnd0 @ '' '') (i + 1) = (r1, i1)"
        by (cases "pad_loop ts (rnd0 @ '' '') (i + 1)")
      have i1: "i1 = int (length r1)" using pad_loop_length [OF _ pl] "1.prems"(3) by simp
      from "1.IH"(1) [OF True a t pl [symmetric] _ "1.prems"(2) i1] "1.prems"(1)
      show ?thesis using True a t pl by (subst render_loop.simps) simp
    next
      case f: False
      from "1.IH"(2) [OF True a f _ "1.prems"(2)] "1.prems"(1,3)
      show ?thesis using True a f by (subst render_loop.simps) simp
    qed
  qed
qed

lemma up_to_date_cong: "layout_of a = layout_of b \<Longrightarrow> up_to_date ts a = up_to_date ts b"
  by (simp add: layout_of_def up_to_date_def)

lemma update_ok:
  assumes lay: "layout_ok ed" and io: "idx_ok ed"
    and i: "0 \<le> i" "i < int (length (rows ed))" and fuel: "length (rows ed) - nat i \<le> f"
  shows "\<exists>ed' k. update f oob ed i = Inr ed'
           \<and> update_calls f oob ed i = [nat i ..< Suc (nat i + k)] \<and> nat i + k < length (rows ed)
           \<and> (\<exists>rs. ed' = ed\<lparr>rows := rs\<rparr>)
           \<and> map text_of (rows ed') = map text_of (rows ed)
           \<and> layout_ok ed' \<and> idx_ok ed'
           \<and> up_to_date (tabStop ed) (rows ed' ! nat i) \<and> hl_ok_row (rows ed' ! nat i)
           \<and> (\<forall>q < length (rows ed). q \<noteq> nat i \<longrightarrow>
                 (up_to_date (tabStop ed) (rows ed ! q) \<longrightarrow> up_to_date (tabStop ed) (rows ed' ! q))
                 \<and> (hl_ok_row (rows ed ! q) \<longrightarrow> hl_ok_row (rows ed' ! q)))"
proof -
  define p where "p = nat i"
  have p: "p < length (rows ed)" using i by (auto simp: p_def)
  let ?row = "rows ed ! p"
  have a: "at (rows ed) i = Inr ?row" using i by (simp add: at_def p_def)
  have sz: "size_row ?row = int (length (chars ?row))"
    using lay p by (simp add: layout_ok_def)
  from render_loop_ok [of 0 "size_row ?row" "chars ?row" 0 "[]" "tabStop ed"] sz
  obtain rnd where rl: "render_loop (tabStop ed) (chars ?row) (size_row ?row) 0 [] 0
                          = Inr (rnd, int (length rnd))" by auto
  let ?r2 = "?row\<lparr>render := rnd, rsize := int (length rnd)\<rparr>"
  let ?e2 = "set_row ed p ?r2"
  have u: "update f oob ed i = updateSyntax f oob ?e2 p"
    using a rl by (simp add: update_def bindE_def p_def)
  have uc: "update_calls f oob ed i = updateSyntax_calls f oob ?e2 p"
    using a rl by (simp add: update_calls_def p_def)
  have len2: "length (rows ?e2) = length (rows ed)" by (simp add: rows_set_row)
  have t2: "map text_of (rows ?e2) = map text_of (rows ed)"
    by (simp add: rows_set_row map_update_same text_of_def)
  have io2: "idx_ok ?e2"
    using io unfolding idx_ok_def len2 text_idx t2 .
  have lay2: "layout_ok ?e2"
    unfolding layout_ok_def rows_set_row
  proof
    fix r assume "r \<in> set ((rows ed)[p := ?r2])"
    then have "r = ?r2 \<or> r \<in> set (rows ed)" using set_update_subset_insert by fastforce
    then show "size_row r = int (length (chars r)) \<and> rsize r = int (length (render r))"
      using lay sz by (auto simp: layout_ok_def)
  qed
  have p2: "rows ?e2 ! p = ?r2" using p by (simp add: rows_set_row)
  have o2: "q \<noteq> p \<Longrightarrow> rows ?e2 ! q = rows ed ! q" for q by (simp add: rows_set_row)
  have "length (rows ?e2) - p \<le> f" using fuel by (simp add: rows_set_row p_def)
  from updateSyntax_ok [OF lay2 io2 _ this, of oob] p len2 obtain ed' k where
    us: "updateSyntax f oob ?e2 p = Inr ed'"
    and cs: "updateSyntax_calls f oob ?e2 p = [p ..< Suc (p + k)]"
    and kb: "p + k < length (rows ed)"
    and m: "map layout_of (rows ed') = map layout_of (rows ?e2)"
    and fr: "\<forall>q < length (rows ed).
                 (q < p \<or> p + k < q \<longrightarrow> rows ed' ! q = rows ?e2 ! q)
                 \<and> (p \<le> q \<and> q \<le> p + k \<longrightarrow> hl_ok_row (rows ed' ! q))"
    by auto
  from updateSyntax_frame [OF us] obtain rs where e': "ed' = ?e2\<lparr>rows := rs\<rparr>" by blast
  then have ex: "\<exists>rs. ed' = ed\<lparr>rows := rs\<rparr>" by (auto simp: set_row_def)
  have ts: "tabStop ed' = tabStop ed" using e' by (simp add: set_row_def)
  have t: "map text_of (rows ed') = map text_of (rows ed)" using layout_text [OF m] t2 by simp
  have lay': "layout_ok ed'" using layout_ok_cong [OF m] lay2 by simp
  have io': "idx_ok ed'" using idx_ok_cong [OF m] io2 by simp
  have lq: "layout_of (rows ed' ! q) = layout_of (rows ?e2 ! q)" if "q < length (rows ed)" for q
    using map_nth_eq [OF m, of q] that arg_cong [OF m, of length] len2 by simp
  have "up_to_date (tabStop ed) ?r2" using rl by (simp add: up_to_date_def)
  then have up: "up_to_date (tabStop ed) (rows ed' ! p)"
    using up_to_date_cong [OF lq [OF p]] p2 by simp
  have hp: "hl_ok_row (rows ed' ! p)" using fr p by auto
  have oth: "\<forall>q < length (rows ed). q \<noteq> p \<longrightarrow>
                 (up_to_date (tabStop ed) (rows ed ! q) \<longrightarrow> up_to_date (tabStop ed) (rows ed' ! q))
                 \<and> (hl_ok_row (rows ed ! q) \<longrightarrow> hl_ok_row (rows ed' ! q))"
  proof (intro allI impI conjI)
    fix q assume q: "q < length (rows ed)" "q \<noteq> p" and "up_to_date (tabStop ed) (rows ed ! q)"
    then show "up_to_date (tabStop ed) (rows ed' ! q)"
      using up_to_date_cong [OF lq [OF q(1)]] o2 [OF q(2)] by simp
  next
    fix q assume q: "q < length (rows ed)" "q \<noteq> p" and h: "hl_ok_row (rows ed ! q)"
    show "hl_ok_row (rows ed' ! q)"
    proof (cases "q < p \<or> p + k < q")
      case True
      then show ?thesis using fr q o2 [OF q(2)] h by auto
    next
      case False
      then show ?thesis using fr q by auto
    qed
  qed
  show ?thesis
    apply (intro exI [of _ ed'] exI [of _ k])
    using u us uc cs kb ex t lay' io' up hp oth unfolding p_def [symmetric] by simp
qed

lemma update_buffer_ok:
  assumes lay: "layout_ok ed" and io: "idx_ok ed"
    and i: "0 \<le> i" "i < int (length (rows ed))" and fuel: "length (rows ed) - nat i \<le> f"
    and oth: "\<forall>q < length (rows ed). q \<noteq> nat i \<longrightarrow>
                hl_ok_row (rows ed ! q) \<and> up_to_date (tabStop ed) (rows ed ! q)"
  shows "\<exists>ed' rs. update f oob ed i = Inr ed' \<and> ed' = ed\<lparr>rows := rs\<rparr> \<and> buffer_ok ed'
           \<and> map text_of (rows ed') = map text_of (rows ed)"
proof -
  from update_ok [OF lay io i fuel, of oob] obtain ed' rs where
    u: "update f oob ed i = Inr ed'" and e: "ed' = ed\<lparr>rows := rs\<rparr>"
    and t: "map text_of (rows ed') = map text_of (rows ed)"
    and l: "layout_ok ed'" "idx_ok ed'"
    and p: "up_to_date (tabStop ed) (rows ed' ! nat i)" "hl_ok_row (rows ed' ! nat i)"
    and o: "\<forall>q < length (rows ed). q \<noteq> nat i \<longrightarrow>
                 (up_to_date (tabStop ed) (rows ed ! q) \<longrightarrow> up_to_date (tabStop ed) (rows ed' ! q))
                 \<and> (hl_ok_row (rows ed ! q) \<longrightarrow> hl_ok_row (rows ed' ! q))"
    by blast
  have len: "length (rows ed') = length (rows ed)" using arg_cong [OF t, of length] by simp
  have ts: "tabStop ed' = tabStop ed" using e by simp
  have "hl_ok_row r \<and> up_to_date (tabStop ed') r" if "r \<in> set (rows ed')" for r
  proof -
    from that obtain q where q: "q < length (rows ed')" "r = rows ed' ! q"
      by (auto simp: in_set_conv_nth)
    show ?thesis
    proof (cases "q = nat i")
      case True
      then show ?thesis using p q ts by simp
    next
      case False
      then show ?thesis using o oth q len ts by auto
    qed
  qed
  then have "buffer_ok ed'" using l by (simp add: buffer_ok_def)
  then show ?thesis using u e t by blast
qed

lemma edit_then_update:
  assumes ok: "buffer_ok ed" and p: "p < length (rows ed)"
    and fuel: "length (rows ed) - p \<le> f"
  shows "\<exists>ed' rs. update f oob (set_row ed p ((rows ed ! p)\<lparr>chars := cs, size_row := int (length cs)\<rparr>)) (int p) = Inr ed'
           \<and> ed' = ed\<lparr>rows := rs\<rparr> \<and> buffer_ok ed'
           \<and> map chars (rows ed') = (map chars (rows ed))[p := cs]"
proof -
  let ?r1 = "(rows ed ! p)\<lparr>chars := cs, size_row := int (length cs)\<rparr>"
  let ?e1 = "set_row ed p ?r1"
  have len1: "length (rows ?e1) = length (rows ed)" by (simp add: rows_set_row)
  have i1: "map idx (rows ?e1) = map idx (rows ed)"
    by (simp add: rows_set_row map_update_same)
  have io1: "idx_ok ?e1" using ok unfolding buffer_ok_def idx_ok_def len1 i1 by simp
  have lay1: "layout_ok ?e1"
    unfolding layout_ok_def rows_set_row
  proof
    fix r assume "r \<in> set ((rows ed)[p := ?r1])"
    then have "r = ?r1 \<or> r \<in> set (rows ed)" using set_update_subset_insert by fastforce
    then show "size_row r = int (length (chars r)) \<and> rsize r = int (length (render r))"
      using ok p by (auto simp: buffer_ok_def layout_ok_def)
  qed
  have oth: "\<forall>q < length (rows ?e1). q \<noteq> nat (int p) \<longrightarrow>
                hl_ok_row (rows ?e1 ! q) \<and> up_to_date (tabStop ?e1) (rows ?e1 ! q)"
    using ok by (auto simp: buffer_ok_def rows_set_row set_row_def)
  from update_buffer_ok [OF lay1 io1 _ _ _ oth, of f oob] p fuel len1 obtain ed' rs where
    u: "update f oob ?e1 (int p) = Inr ed'" and e: "ed' = ?e1\<lparr>rows := rs\<rparr>"
    and b: "buffer_ok ed'" and t: "map text_of (rows ed') = map text_of (rows ?e1)"
    by auto
  have "map chars (rows ed') = map chars (rows ?e1)" unfolding text_chars t ..
  then have c: "map chars (rows ed') = (map chars (rows ed))[p := cs]"
    by (simp add: rows_set_row map_update)
  have "ed' = ed\<lparr>rows := rs\<rparr>" using e by (simp add: set_row_def)
  then show ?thesis using u b c by blast
qed

lemma buffer_ok_nth: "buffer_ok ed \<Longrightarrow> p < length (rows ed) \<Longrightarrow>
   idx (rows ed ! p) = int p \<and> size_row (rows ed ! p) = int (length (chars (rows ed ! p)))"
  by (simp add: buffer_ok_def idx_ok_nth layout_ok_def)

lemma buffer_ok_dirty: "buffer_ok (ed\<lparr>dirty := d\<rparr>) = buffer_ok ed"
  by (simp add: buffer_ok_def idx_ok_def layout_ok_def)

lemma rowInsertChar_ok:
  assumes ok: "buffer_ok ed" and p: "p < length (rows ed)" and fuel: "length (rows ed) - p \<le> f"
  shows "\<exists>ed' a. rowInsertChar f oob ed p at' c = Inr ed' \<and> buffer_ok ed'
           \<and> a = (if at' < 0 \<or> at' > int (length (chars (rows ed ! p)))
                  then length (chars (rows ed ! p)) else nat at')
           \<and> map chars (rows ed')
               = (map chars (rows ed))[p := take a (chars (rows ed ! p)) @ [c]
                                            @ drop a (chars (rows ed ! p))]"
proof -
  let ?row = "rows ed ! p"
  note n = buffer_ok_nth [OF ok p]
  define a where "a = (if at' < 0 \<or> at' > size_row ?row then size_row ?row else at')"
  have ar: "0 \<le> a" "a \<le> int (length (chars ?row))" using n by (auto simp: a_def)
  let ?cs = "take (nat a) (chars ?row) @ [c] @ drop (nat a) (chars ?row)"
  have l: "int (length ?cs) = size_row ?row + 1" using ar n by auto
  from edit_then_update [OF ok p fuel, of oob ?cs] obtain ed' rs where
    u: "update f oob (set_row ed p (?row\<lparr>chars := ?cs, size_row := int (length ?cs)\<rparr>)) (int p) = Inr ed'"
    and e: "ed' = ed\<lparr>rows := rs\<rparr>" and b: "buffer_ok ed'"
    and c: "map chars (rows ed') = (map chars (rows ed))[p := ?cs]" by blast
  have eq: "size_row ?row + 1 = int (length ?cs)" using l by simp
  have "rowInsertChar f oob ed p at' c
        = bindE (update f oob (set_row ed p (?row\<lparr>chars := ?cs, size_row := int (length ?cs)\<rparr>)) (int p))
            (\<lambda>e. Inr (e\<lparr>dirty := dirty e + 1\<rparr>))"
    unfolding rowInsertChar_def Let_def a_def [symmetric] eq using ar n by simp
  then have "rowInsertChar f oob ed p at' c = Inr (ed'\<lparr>dirty := dirty ed' + 1\<rparr>)"
    unfolding u by (simp add: bindE_def)
  moreover have "nat a = (if at' < 0 \<or> at' > int (length (chars ?row))
                  then length (chars ?row) else nat at')"
    using n by (simp add: a_def)
  ultimately show ?thesis using b c by (simp add: buffer_ok_dirty)
qed

lemma rowAppendString_ok:
  assumes ok: "buffer_ok ed" and p: "p < length (rows ed)" and fuel: "length (rows ed) - p \<le> f"
  shows "\<exists>ed'. rowAppendString f oob ed p s = Inr ed' \<and> buffer_ok ed'
           \<and> map chars (rows ed') = (map chars (rows ed))[p := chars (rows ed ! p) @ s]"
proof -
  let ?row = "rows ed ! p"
  note n = buffer_ok_nth [OF ok p]
  let ?cs = "chars ?row @ s"
  have l: "int (length ?cs) = size_row ?row + int (length s)" using n by simp
  from edit_then_update [OF ok p fuel, of oob ?cs] obtain ed' rs where
    u: "update f oob (set_row ed p (?row\<lparr>chars := ?cs, size_row := int (length ?cs)\<rparr>)) (int p) = Inr ed'"
    and e: "ed' = ed\<lparr>rows := rs\<rparr>" and b: "buffer_ok ed'"
    and c: "map chars (rows ed') = (map chars (rows ed))[p := ?cs]" by blast
  have eq: "size_row ?row + int (length s) = int (length ?cs)" using l by simp
  have "rowAppendString f oob ed p s
        = bindE (update f oob (set_row ed p (?row\<lparr>chars := ?cs, size_row := int (length ?cs)\<rparr>)) (int p))
            (\<lambda>e. Inr (e\<lparr>dirty := dirty e + 1\<rparr>))"
    unfolding rowAppendString_def Let_def eq using n by simp
  then have "rowAppendString f oob ed p s = Inr (ed'\<lparr>dirty := dirty ed' + 1\<rparr>)"
    unfolding u by (simp add: bindE_def)
  then show ?thesis using b c by (simp add: buffer_ok_dirty)
qed

lemma rowDelChar_ok:
  assumes ok: "buffer_ok ed" and p: "p < length (rows ed)" and fuel: "length (rows ed) - p \<le> f"
    and a: "0 \<le> at'" "at' < int (length (chars (rows ed ! p)))"
  shows "\<exists>ed'. rowDelChar f oob ed p at' = Inr ed' \<and> buffer_ok ed'
           \<and> map chars (rows ed')
               = (map chars (rows ed))[p := take (nat at') (chars (rows ed ! p))
                                            @ drop (nat at' + 1) (chars (rows ed ! p))]"
proof -
  let ?row = "rows ed ! p"
  note n = buffer_ok_nth [OF ok p]
  let ?cs = "take (nat at') (chars ?row) @ drop (nat at' + 1) (chars ?row)"
  have l: "int (length ?cs) = size_row ?row - 1" using a n by auto
  from edit_then_update [OF ok p fuel, of oob ?cs] obtain ed' rs where
    u: "update f oob (set_row ed p (?row\<lparr>chars := ?cs, size_row := int (length ?cs)\<rparr>)) (int p) = Inr ed'"
    and e: "ed' = ed\<lparr>rows := rs\<rparr>" and b: "buffer_ok ed'"
    and c: "map chars (rows ed') = (map chars (rows ed))[p := ?cs]" by blast
  have eq: "size_row ?row - 1 = int (length ?cs)" using l by simp
  have "rowDelChar f oob ed p at'
        = bindE (update f oob (set_row ed p (?row\<lparr>chars := ?cs, size_row := int (length ?cs)\<rparr>)) (int p))
            (\<lambda>e. Inr (e\<lparr>dirty := dirty e + 1\<rparr>))"
    unfolding rowDelChar_def Let_def eq using n a by simp
  then have "rowDelChar f oob ed p at' = Inr (ed'\<lparr>dirty := dirty ed' + 1\<rparr>)"
    unfolding u by (simp add: bindE_def)
  then show ?thesis using b c by (simp add: buffer_ok_dirty)
qed

lemma insertRow_end_ok:
  assumes ok: "buffer_ok ed" and fuel: "1 \<le> f"
  shows "\<exists>ed'. insertRow f oob ed s (int (length (rows ed))) = Inr ed' \<and> buffer_ok ed'
           \<and> map chars (rows ed') = map chars (rows ed) @ [s]
           \<and> tabStop ed' = tabStop ed"
proof -
  define n where "n = length (rows ed)"
  let ?e0 = "ed\<lparr>rows := rows ed @ [new_row s (int n)]\<rparr>"
  have io: "idx_ok ?e0" using ok by (simp add: buffer_ok_def idx_ok_def new_row_def n_def)
  have lay: "layout_ok ?e0" using ok by (auto simp: buffer_ok_def layout_ok_def new_row_def)
  have oth: "\<forall>q < length (rows ?e0). q \<noteq> nat (int n) \<longrightarrow>
                hl_ok_row (rows ?e0 ! q) \<and> up_to_date (tabStop ?e0) (rows ?e0 ! q)"
    using ok by (auto simp: buffer_ok_def nth_append n_def)
  from update_buffer_ok [OF lay io _ _ _ oth, of f oob] fuel obtain ed' rs where
    u: "update f oob ?e0 (int n) = Inr ed'" and e: "ed' = ?e0\<lparr>rows := rs\<rparr>"
    and b: "buffer_ok ed'" and t: "map text_of (rows ed') = map text_of (rows ?e0)"
    by (auto simp: n_def)
  have "insertRow f oob ed s (int n) = Inr (ed'\<lparr>dirty := dirty ed' + 1\<rparr>)"
    using u by (simp add: insertRow_def bindE_def n_def)
  moreover have "map chars (rows ed') = map chars (rows ed) @ [s]"
    unfolding text_chars t by (simp add: text_of_def new_row_def)
  moreover have "tabStop ed' = tabStop ed" using e by simp
  ultimately show ?thesis using b unfolding n_def by (simp add: buffer_ok_dirty)
qed

lemma delRow_ok: "buffer_ok ed \<Longrightarrow> buffer_ok (delRow ed a)"
proof -
  assume ok: "buffer_ok ed"
  have io: "idx_ok (delRow ed a)" using ok delRow_idx_ok by (simp add: buffer_ok_def)
  have sub: "\<exists>r0 \<in> set (rows ed). \<exists>i. r = r0\<lparr>idx := i\<rparr>"
    if "r \<in> set (rows (delRow ed a))" for r
  proof (cases "a < 0 \<or> a \<ge> int (length (rows ed))")
    case True
    then have "r \<in> set (rows ed)" using that by (simp add: delRow_def)
    moreover have "r = r\<lparr>idx := idx r\<rparr>" by simp
    ultimately show ?thesis by blast
  next
    case False
    then have "r \<in> set (take (nat a) (rows ed))
               \<or> r \<in> (\<lambda>r. r\<lparr>idx := idx r - 1\<rparr>) ` set (drop (nat a + 1) (rows ed))"
      using that by (auto simp: delRow_def)
    then show ?thesis
    proof
      assume "r \<in> set (take (nat a) (rows ed))"
      then have "r \<in> set (rows ed)" by (rule in_set_takeD)
      moreover have "r = r\<lparr>idx := idx r\<rparr>" by simp
      ultimately show ?thesis by blast
    next
      assume "r \<in> (\<lambda>r. r\<lparr>idx := idx r - 1\<rparr>) ` set (drop (nat a + 1) (rows ed))"
      then obtain r0 where r0: "r0 \<in> set (drop (nat a + 1) (rows ed))"
        and r: "r = r0\<lparr>idx := idx r0 - 1\<rparr>"
        by blast
      have "r0 \<in> set (rows ed)" using r0 by (rule in_set_dropD)
      then show ?thesis using r by (intro bexI [of _ r0] exI [of _ "idx r0 - 1"])
    qed
  qed
  have ts: "tabStop (delRow ed a) = tabStop ed" by (simp add: delRow_def)
  have "size_row r = int (length (chars r)) \<and> rsize r = int (length (render r))
        \<and> hl_ok_row r \<and> up_to_date (tabStop ed) r"
    if "r \<in> set (rows (delRow ed a))" for r
  proof -
    from sub [OF that] obtain r0 i where "r0 \<in> set (rows ed)" "r = r0\<lparr>idx := i\<rparr>" by blast
    then show ?thesis using ok
      by (auto simp: buffer_ok_def layout_ok_def hl_ok_row_def up_to_date_def)
  qed
  then show ?thesis using io ts by (simp add: buffer_ok_def layout_ok_def)
qed

text \<open>
  C5. After every mutation the rendered form of each row should be derived from its
  current \<^verbatim>\<open>chars\<close>. After Return at the start of the only row \<^verbatim>\<open>x\<close> and the key
  \<^verbatim>\<open>y\<close>, row 1 holds \<^verbatim>\<open>yx\<close> and its rendered form is still \<^verbatim>\<open>x\<close>:
  \<^verbatim>\<open>_rowInsertChar\<close> re-derives the row at \<^verbatim>\<open>row.idx\<close>, which is 0 for this row.
\<close>

theorem typing_after_newline_leaves_render_stale:
  "map_sum id (\<lambda>e. map (\<lambda>r. (chars r, render r)) (rows e))
     (bindE (open_file 1 False Editor_init ''notes.txt'' [CHR ''x'', LF])
        (\<lambda>e. bindE (insertNewLine 1 False e) (\<lambda>e. insertChar 1 False e (CHR ''y''))))
     = Inr [([], []), (''yx'', ''x'')]"
  by code_simp

subsection \<open>Loading and saving\<close>

text \<open>
  \<^verbatim>\<open>open\<close> on an empty buffer returns for every file, the rows are the lines without
  their line ends, and what \<^verbatim>\<open>_save\<close> then writes has no line feed in it.
\<close>

lemma save_bytes_concat: "save_bytes ed = concat (map chars (rows ed))"
proof -
  have "foldl (\<lambda>out row. out @ chars row) acc rs = acc @ concat (map chars rs)"
    for acc and rs :: "Row list"
    by (induction rs arbitrary: acc) simp_all
  then show ?thesis by (simp add: save_bytes_def)
qed

lemma open_rows_fold:
  "foldl (\<lambda>m l. bindE m (\<lambda>e. insertRow f oob e (strip_eol l) (int (length (rows e)))))
     (Inr e) ls = Inr e' \<Longrightarrow>
   map chars (rows e') = map chars (rows e) @ map strip_eol ls"
proof (induction ls arbitrary: e)
  case Nil
  then show ?case by simp
next
  case (Cons l ls)
  show ?case
  proof (cases "insertRow f oob e (strip_eol l) (int (length (rows e)))")
    case (Inl err)
    then show ?thesis using Cons.prems foldl_bindE_Inl [of "\<lambda>l e. insertRow f oob e (strip_eol l) (int (length (rows e)))" err ls]
      by (simp add: bindE_def)
  next
    case (Inr e1)
    then have "foldl (\<lambda>m l. bindE m (\<lambda>e. insertRow f oob e (strip_eol l) (int (length (rows e)))))
                 (Inr e1) ls = Inr e'"
      using Cons.prems by (simp add: bindE_def)
    from Cons.IH [OF this] insertRow_end [OF Inr] show ?thesis
      unfolding text_chars by simp
  qed
qed

lemma selectSyntaxHighlight_empty:
  "rows ed = [] \<Longrightarrow> \<exists>e. selectSyntaxHighlight f oob ed = Inr e \<and> rows e = []"
  by (simp add: selectSyntaxHighlight_def Let_def updateSyntax_all_def split: option.splits)

lemma getlines_shape:
  "LF \<notin> set acc \<Longrightarrow> l \<in> set (getlines acc s) \<Longrightarrow>
     \<exists>b. LF \<notin> set b \<and> (l = b \<or> l = b @ [LF])"
proof (induction s arbitrary: acc)
  case Nil
  then show ?case by (auto split: if_splits)
next
  case (Cons a s)
  show ?case
  proof (cases "a = LF")
    case True
    then have "l = acc @ [LF] \<or> l \<in> set (getlines [] s)" using Cons.prems by simp
    then show ?thesis
    proof
      assume "l = acc @ [LF]"
      then show ?thesis using Cons.prems(1) by blast
    next
      assume "l \<in> set (getlines [] s)"
      then show ?thesis using Cons.IH [of "[]"] by simp
    qed
  next
    case False
    then have "l \<in> set (getlines (acc @ [a]) s)" using Cons.prems by simp
    moreover have "LF \<notin> set (acc @ [a])" using False Cons.prems(1) by auto
    ultimately show ?thesis using Cons.IH by blast
  qed
qed

lemma strip_eol_subset: "set (strip_eol l) \<subseteq> set l"
  unfolding strip_eol_def by (metis set_dropWhileD set_rev subsetI)

lemma strip_eol_no_LF:
  assumes "LF \<notin> set b" and "l = b \<or> l = b @ [LF]"
  shows "LF \<notin> set (strip_eol l)"
proof -
  have "strip_eol (b @ [LF]) = strip_eol b" by (simp add: strip_eol_def)
  then have "strip_eol l = strip_eol b" using assms(2) by auto
  then show ?thesis using assms(1) strip_eol_subset [of b] by auto
qed

lemma open_file_saves_one_line:
  assumes "open_file f oob ed name content = Inr ed'" and "rows ed = []"
  shows "save_bytes ed' = concat (map strip_eol (getlines [] content))
         \<and> LF \<notin> set (save_bytes ed')"
proof -
  from selectSyntaxHighlight_empty [of "ed\<lparr>filename := name\<rparr>" f oob] assms(2)
  obtain e0 where s: "selectSyntaxHighlight f oob (ed\<lparr>filename := name\<rparr>) = Inr e0"
    and r0: "rows e0 = []" by auto
  from assms(1) s obtain e1 where
    fl: "foldl (\<lambda>m l. bindE m (\<lambda>e. insertRow f oob e (strip_eol l) (int (length (rows e)))))
           (Inr e0) (getlines [] content) = Inr e1" and e': "ed' = e1\<lparr>dirty := 0\<rparr>"
    by (auto simp: open_file_def bindE_Inr)
  have c: "map chars (rows ed') = map strip_eol (getlines [] content)"
    using open_rows_fold [OF fl] r0 e' by simp
  have "LF \<notin> set (strip_eol l)" if "l \<in> set (getlines [] content)" for l
    using getlines_shape [OF _ that] strip_eol_no_LF by auto
  then show ?thesis unfolding save_bytes_concat c by auto
qed

lemma open_rows_ok:
  "buffer_ok e \<Longrightarrow> 1 \<le> f \<Longrightarrow>
   \<exists>e'. foldl (\<lambda>m l. bindE m (\<lambda>e. insertRow f oob e (strip_eol l) (int (length (rows e)))))
          (Inr e) ls = Inr e'
        \<and> buffer_ok e' \<and> map chars (rows e') = map chars (rows e) @ map strip_eol ls"
proof (induction ls arbitrary: e)
  case Nil
  then show ?case by simp
next
  case (Cons l ls)
  from insertRow_end_ok [OF Cons.prems, of oob "strip_eol l"] obtain e1 where
    i: "insertRow f oob e (strip_eol l) (int (length (rows e))) = Inr e1"
    and b: "buffer_ok e1" and c: "map chars (rows e1) = map chars (rows e) @ [strip_eol l]"
    by blast
  from Cons.IH [OF b Cons.prems(2)] obtain e' where
    "foldl (\<lambda>m l. bindE m (\<lambda>e. insertRow f oob e (strip_eol l) (int (length (rows e)))))
          (Inr e1) ls = Inr e'"
    and "buffer_ok e'" and "map chars (rows e') = map chars (rows e1) @ map strip_eol ls"
    by blast
  then show ?case using i c by (simp add: bindE_def)
qed

lemma open_file_ok:
  assumes "rows ed = []" and "1 \<le> f"
  shows "\<exists>ed'. open_file f oob ed name content = Inr ed' \<and> buffer_ok ed'
           \<and> map chars (rows ed') = map strip_eol (getlines [] content)"
proof -
  from selectSyntaxHighlight_empty [of "ed\<lparr>filename := name\<rparr>" f oob] assms(1)
  obtain e0 where s: "selectSyntaxHighlight f oob (ed\<lparr>filename := name\<rparr>) = Inr e0"
    and r0: "rows e0 = []" by auto
  have "buffer_ok e0" using r0 by (simp add: buffer_ok_def idx_ok_def layout_ok_def)
  from open_rows_ok [OF this assms(2), of oob "getlines [] content"] obtain e1 where
    fl: "foldl (\<lambda>m l. bindE m (\<lambda>e. insertRow f oob e (strip_eol l) (int (length (rows e)))))
           (Inr e0) (getlines [] content) = Inr e1"
    and b: "buffer_ok e1"
    and c: "map chars (rows e1) = map chars (rows e0) @ map strip_eol (getlines [] content)"
    by blast
  have "open_file f oob ed name content = Inr (e1\<lparr>dirty := 0\<rparr>)"
    using s fl by (simp add: open_file_def bindE_def)
  then show ?thesis using b c r0 by (simp add: buffer_ok_dirty)
qed

text \<open>
  C1. Loading a file and saving it at once should give the file back, up to the form
  of its line ends, with the rows written as separate lines. \<^verbatim>\<open>_save\<close> writes the
  bytes of the rows one after the other and no line end at all: the two-line file
  \<^verbatim>\<open>a\nb\n\<close> is loaded as the rows \<^verbatim>\<open>a\<close> and \<^verbatim>\<open>b\<close> and saved as the two bytes
  \<^verbatim>\<open>ab\<close>.
\<close>

theorem save_after_open_joins_the_lines:
  "map_sum id (\<lambda>e. map chars (rows e))
     (open_file 1 False Editor_init ''notes.txt'' [CHR ''a'', LF, CHR ''b'', LF])
     = Inr [''a'', ''b'']
   \<and> map_sum id fst
       (bindE (open_file 1 False Editor_init ''notes.txt'' [CHR ''a'', LF, CHR ''b'', LF])
          (\<lambda>e. save 1 False [] (e, Find_init)))
     = Inr (Some ''ab'')"
  by code_simp

subsection \<open>Split and merge\<close>

text \<open>
  When the bytes behind the split column hold no NUL, Return followed by Backspace
  gives back the bytes of every row and the cursor, whenever both return.
\<close>

lemma c_str_id: "NUL \<notin> set s \<Longrightarrow> c_str s = s"
  by (auto simp: c_str_def takeWhile_eq_all_conv)

lemma resize_str_take: "n \<le> length s \<Longrightarrow> resize_str s n = take n s"
  by (simp add: resize_str_def)

lemma splice_merge:
  "length A = c \<Longrightarrow>
     take (Suc c) ((A @ u # v # B)[c := w]) @ drop (Suc (Suc c)) ((A @ u # v # B)[c := w])
       = A @ w # B"
  by (simp add: list_update_append)

lemma insertNewLine_split:
  assumes nl: "insertNewLine f oob ed = Inr e1"
    and cy: "0 \<le> cy ed" "cy ed < int (length (rows ed))"
    and cx: "0 < cx ed" "cx ed \<le> int (length (chars (rows ed ! nat (cy ed))))"
  shows "cy e1 = cy ed + 1 \<and> cx e1 = 0
         \<and> map chars (rows e1)
             = take (nat (cy ed)) (map chars (rows ed))
               @ take (nat (cx ed)) (chars (rows ed ! nat (cy ed)))
               # c_str (drop (nat (cx ed)) (chars (rows ed ! nat (cy ed))))
               # drop (Suc (nat (cy ed))) (map chars (rows ed))
         \<and> size_row (rows e1 ! nat (cy ed)) = cx ed"
proof -
  define c where "c = nat (cy ed)"
  define x where "x = nat (cx ed)"
  let ?row = "rows ed ! c"
  let ?T = "map text_of (rows ed)"
  have cl: "c < length (rows ed)" using cy by (auto simp: c_def)
  from nl cx(1) obtain es eu where
    sp: "newline_split f oob ed = Inr es" and up: "update f oob es (cy es) = Inr eu"
    and e1: "e1 = eu\<lparr>cy := cy eu + 1, cx := 0\<rparr>"
    by (auto simp: insertNewLine_def bindE_Inr)
  have a0: "at (rows ed) (cy ed) = Inr ?row" using cy by (simp add: at_def c_def)
  from sp a0 obtain ea row1 where
    ir: "insertRow f oob ed (c_str (drop x (chars ?row))) (cy ed + 1) = Inr ea"
    and a1: "at (rows ea) (cy ea) = Inr row1"
    and es: "es = set_row ea (nat (cy ea))
                    (row1\<lparr>size_row := cx ea, chars := resize_str (chars row1) (nat (cx ea))\<rparr>)"
    by (auto simp: newline_split_def bindE_Inr x_def c_def)
  let ?new = "new_row (c_str (drop x (chars ?row))) (cy ed + 1)"
  from insertRow_frame [OF ir] cy obtain rsa where
    ea: "ea = ed\<lparr>rows := rsa, dirty := dirty ed + 1\<rparr>"
    and ta: "map text_of rsa = take (nat (cy ed + 1)) ?T @ [text_of ?new] @ drop (nat (cy ed + 1)) ?T"
    by auto
  have n1: "nat (cy ed + 1) = Suc c" using cy by (simp add: c_def)
  have ta': "map text_of rsa = take c ?T @ text_of ?row # text_of ?new # drop (Suc c) ?T"
    unfolding ta n1 using cl by (simp add: take_Suc_conv_app_nth)
  have cya: "cy ea = cy ed" "cx ea = cx ed" "rows ea = rsa" using ea by simp_all
  have lc: "length (take c ?T) = c" using cl by simp
  have r1: "row1 = rsa ! c" using at_Inr [OF a1] cya by (simp add: c_def)
  have "map text_of rsa ! c = text_of ?row" unfolding ta' using lc by (simp add: nth_append)
  moreover have "c < length rsa" using arg_cong [OF ta', of length] cl by simp
  ultimately have tr1: "text_of row1 = text_of ?row" using r1 by simp
  then have ch1: "chars row1 = chars ?row" by (simp add: text_of_def)
  let ?cut = "row1\<lparr>size_row := cx ed, chars := resize_str (chars row1) x\<rparr>"
  have es': "es = set_row ea c ?cut" using es cya by (simp add: c_def x_def)
  have xl: "x \<le> length (chars ?row)" using cx by (simp add: x_def c_def)
  have ts: "map text_of (rows es)
            = take c ?T @ (idx row1, cx ed, take x (chars ?row)) # text_of ?new # drop (Suc c) ?T"
    unfolding es' rows_set_row cya map_update ta'
    using lc xl by (simp add: list_update_append text_of_def ch1 resize_str_take)
  from update_frame [OF up] obtain rsu where
    eu: "eu = es\<lparr>rows := rsu\<rparr>" and tu: "map text_of rsu = map text_of (rows es)" by blast
  have cys: "cy es = cy ed" "cx es = cx ed" using es' cya by (simp_all add: set_row_def)
  have re1: "rows e1 = rsu" using e1 eu by simp
  have t1: "map text_of (rows e1)
            = take c ?T @ (idx row1, cx ed, take x (chars ?row)) # text_of ?new # drop (Suc c) ?T"
    unfolding re1 tu ts ..
  have "cy e1 = cy ed + 1" "cx e1 = 0" using e1 eu cys by simp_all
  moreover have "map chars (rows e1)
             = take c (map chars (rows ed)) @ take x (chars ?row)
               # c_str (drop x (chars ?row)) # drop (Suc c) (map chars (rows ed))"
    unfolding text_chars t1 by (simp add: take_map drop_map text_of_def new_row_def)
  moreover have "size_row (rows e1 ! c) = cx ed"
  proof -
    have "c < length (rows e1)" using arg_cong [OF t1, of length] cl by simp
    then have "text_of (rows e1 ! c) = map text_of (rows e1) ! c" by simp
    also have "\<dots> = (idx row1, cx ed, take x (chars ?row))"
      unfolding t1 using lc by (simp add: nth_append)
    finally show ?thesis by (simp add: text_of_def)
  qed
  ultimately show ?thesis unfolding c_def x_def by simp
qed

lemma delChar_merge:
  assumes dc: "delChar f oob e1 = Inr e2"
    and cx: "cx e1 = 0" and cy: "0 < cy e1" "cy e1 < int (length (rows e1))"
  shows "cy e2 = cy e1 - 1 \<and> cx e2 = size_row (rows e1 ! nat (cy e1 - 1))
         \<and> map chars (rows e2)
             = take (nat (cy e1))
                 ((map chars (rows e1))[nat (cy e1 - 1) :=
                    chars (rows e1 ! nat (cy e1 - 1)) @ chars (rows e1 ! nat (cy e1))])
               @ drop (Suc (nat (cy e1)))
                   ((map chars (rows e1))[nat (cy e1 - 1) :=
                      chars (rows e1 ! nat (cy e1 - 1)) @ chars (rows e1 ! nat (cy e1))])"
proof -
  define c where "c = nat (cy e1 - 1)"
  let ?row = "rows e1 ! nat (cy e1)"
  let ?prev = "rows e1 ! c"
  have a1: "at (rows e1) (cy e1) = Inr ?row" using cy by (simp add: at_def)
  have a0: "at (rows e1) (cy e1 - 1) = Inr ?prev" using cy by (simp add: at_def c_def)
  from dc cx cy a1 a0 obtain ea where
    ra: "rowAppendString f oob (e1\<lparr>cx := size_row ?prev\<rparr>) c (chars ?row) = Inr ea"
    and e2: "e2 = (delRow ea (cy ea))\<lparr>cy := cy (delRow ea (cy ea)) - 1\<rparr>"
    by (auto simp: delChar_def bindE_Inr Let_def c_def)
  from rowAppendString_frame [OF ra] obtain rs where
    ea: "ea = e1\<lparr>cx := size_row ?prev, rows := rs, dirty := dirty e1 + 1\<rparr>"
    and cr: "map chars rs = (map chars (rows e1))[c := chars ?prev @ chars ?row]"
    by auto
  have len: "length rs = length (rows e1)" using arg_cong [OF cr, of length] by simp
  have rng: "\<not> (cy e1 < 0 \<or> cy e1 \<ge> int (length rs))" using cy len by simp
  have rd: "rows (delRow ea (cy ea))
            = take (nat (cy e1)) rs @ map (\<lambda>r. r\<lparr>idx := idx r - 1\<rparr>) (drop (nat (cy e1) + 1) rs)"
    using rng ea by (simp add: delRow_def)
  have "map chars (rows e2) = take (nat (cy e1)) (map chars rs) @ drop (Suc (nat (cy e1))) (map chars rs)"
    using e2 rd by (simp add: take_map drop_map comp_def)
  moreover have "cy e2 = cy e1 - 1" "cx e2 = size_row ?prev"
    using e2 ea rng by (simp_all add: delRow_def)
  ultimately show ?thesis unfolding cr c_def by simp
qed

lemma split_then_merge_restores:
  assumes nl: "insertNewLine f oob ed = Inr e1" and dc: "delChar f oob e1 = Inr e2"
    and cy: "0 \<le> cy ed" "cy ed < int (length (rows ed))"
    and cx: "0 < cx ed" "cx ed \<le> int (length (chars (rows ed ! nat (cy ed))))"
    and nul: "NUL \<notin> set (drop (nat (cx ed)) (chars (rows ed ! nat (cy ed))))"
  shows "map chars (rows e2) = map chars (rows ed) \<and> cy e2 = cy ed \<and> cx e2 = cx ed"
proof -
  define c where "c = nat (cy ed)"
  define x where "x = nat (cx ed)"
  let ?C = "map chars (rows ed)"
  let ?ch = "chars (rows ed ! c)"
  have cl: "c < length (rows ed)" using cy by (auto simp: c_def)
  from insertNewLine_split [OF nl cy cx] c_str_id [OF nul]
  have y1: "cy e1 = cy ed + 1" and x1: "cx e1 = 0"
    and c1: "map chars (rows e1) = take c ?C @ take x ?ch # drop x ?ch # drop (Suc c) ?C"
    and s1: "size_row (rows e1 ! c) = cx ed"
    by (simp_all add: c_def x_def)
  have l1: "length (rows e1) = Suc (length (rows ed))"
    using arg_cong [OF c1, of length] cl by simp
  have n0: "nat (cy e1 - 1) = c" and n1: "nat (cy e1) = Suc c" using y1 cy by (simp_all add: c_def)
  have lc: "length (take c ?C) = c" using cl by simp
  have p0: "chars (rows e1 ! c) = take x ?ch"
  proof -
    have "chars (rows e1 ! c) = map chars (rows e1) ! c" using l1 cl by simp
    then show ?thesis unfolding c1 using lc by (simp add: nth_append)
  qed
  have p1: "chars (rows e1 ! Suc c) = drop x ?ch"
  proof -
    have "chars (rows e1 ! Suc c) = map chars (rows e1) ! Suc c" using l1 cl by simp
    then show ?thesis unfolding c1 using lc by (simp add: nth_append)
  qed
  have "0 < cy e1" "cy e1 < int (length (rows e1))" using y1 cy l1 by simp_all
  from delChar_merge [OF dc x1 this]
  have y2: "cy e2 = cy ed" and x2: "cx e2 = cx ed"
    and c2: "map chars (rows e2)
             = take (Suc c) ((map chars (rows e1))[c := take x ?ch @ drop x ?ch])
               @ drop (Suc (Suc c)) ((map chars (rows e1))[c := take x ?ch @ drop x ?ch])"
    unfolding n0 n1 p0 p1 s1 using y1 by simp_all
  have "map chars (rows e2) = take c ?C @ ?ch # drop (Suc c) ?C"
    unfolding c2 c1 using splice_merge [OF lc] by simp
  also have "\<dots> = ?C" using id_take_nth_drop [of c ?C] cl by simp
  finally show ?thesis using y2 x2 by simp
qed

text \<open>Both return, for one, on the row \<^verbatim>\<open>ab\<close> of a buffer of three rows.\<close>

lemma split_then_merge_example:
  "map_sum id (\<lambda>e. (map chars (rows e), cx e, cy e))
     (bindE (open_file 1 False Editor_init ''notes.txt''
               (''ab'' @ [LF] @ ''y'' @ [LF] @ ''z'' @ [LF]))
        (\<lambda>e. bindE (moveCursor e ARROW_RIGHT)
           (\<lambda>e. bindE (insertNewLine 2 False e) (\<lambda>e. delChar 2 False e))))
     = Inr ([''ab'', ''y'', ''z''], 1, 0)"
  by code_simp

text \<open>
  C7. Splitting a line and joining it again should give back its bytes. In a buffer
  of three rows, the row \<^verbatim>\<open>a\<close>, NUL, \<^verbatim>\<open>b\<close> split at column 1 and joined again is the
  row \<^verbatim>\<open>a\<close>: the new row is built from a \<^verbatim>\<open>const char *\<close> and ends at the NUL.
\<close>

theorem split_then_merge_loses_bytes:
  "map_sum id (\<lambda>e. map chars (rows e))
     (open_file 1 False Editor_init ''notes.txt''
        ([CHR ''a'', NUL, CHR ''b'', LF] @ ''y'' @ [LF] @ ''z'' @ [LF]))
     = Inr [[CHR ''a'', NUL, CHR ''b''], ''y'', ''z'']
   \<and> map_sum id (\<lambda>e. map chars (rows e))
       (bindE (open_file 1 False Editor_init ''notes.txt''
                 ([CHR ''a'', NUL, CHR ''b'', LF] @ ''y'' @ [LF] @ ''z'' @ [LF]))
          (\<lambda>e. bindE (moveCursor e ARROW_RIGHT)
             (\<lambda>e. bindE (insertNewLine 2 False e) (\<lambda>e. delChar 2 False e))))
     = Inr [''a'', ''y'', ''z'']"
  by code_simp

subsection \<open>Search\<close>

text \<open>
  Escape ends \<^verbatim>\<open>_prompt\<close> without a call of the callback: the rows and the statics of
  \<^verbatim>\<open>_findAction\<close> are as before the key. The callback, had it been called with
  Escape, would have written the saved highlight back.
\<close>

lemma scroll_rows: "scroll ed = Inr e \<Longrightarrow> rows e = rows ed"
  by (auto simp: scroll_def bindE_Inr Let_def)

lemma prompt_escape:
  assumes "prompt cb (KEY_ESC # ks) buf (ed, fs) = Inr (q, ks', e', fs')"
  shows "q = [] \<and> ks' = ks \<and> rows e' = rows ed \<and> fs' = fs"
proof -
  have k: "prompt_key buf KEY_ESC = Return []"
    by (simp add: prompt_key_def KEY_ESC_def DEL_KEY_def CTRL_H_def BACKSPACE_def)
  from assms obtain e1 where "scroll ed = Inr e1" and "q = []" "ks' = ks" "e' = e1" "fs' = fs"
    by (auto simp: bindE_Inr k)
  then show ?thesis using scroll_rows by simp
qed

lemma findAction_escape_restores:
  assumes "findAction q KEY_ESC (ed, fs) = Inr (e', fs')" and "savedHl fs \<noteq> []"
  shows "hl (rows e' ! nat (savedHlLine fs)) = savedHl fs \<and> savedHl fs' = []"
proof -
  from assms obtain row where a: "at (rows ed) (savedHlLine fs) = Inr row"
    and e: "e' = set_row ed (nat (savedHlLine fs)) (row\<lparr>hl := savedHl fs\<rparr>)"
    and f: "fs' = fs\<lparr>savedHl := [], last_match := - 1, direction := 1\<rparr>"
    by (auto simp: findAction_def bindE_Inr)
  from at_Inr [OF a] have "nat (savedHlLine fs) < length (rows ed)" by auto
  then show ?thesis using e f by (simp add: rows_set_row)
qed

text \<open>
  C4. Escape should give back the highlight of the matched row and the cursor. In
  a buffer of three rows of which only row 1 holds \<^verbatim>\<open>comment\<close>, typing the query and
  then Escape gives back the cursor and both offsets, but \<^verbatim>\<open>_prompt\<close> returns on
  Escape before it calls the callback, so the saved highlight is never written back:
  the seven bytes of the match stay \<open>HL_MATCH\<close>.
\<close>

theorem escape_leaves_match_highlight:
  "map_sum id (\<lambda>(ks, e, fs). (cx e, cy e, rowOffset e, colOffset e, hl (rows e ! 1)))
     (bindE (open_file 1 False Editor_init ''notes.txt''
               (''a'' @ [LF] @ ''a comment'' @ [LF] @ ''b'' @ [LF]))
        (\<lambda>e. find_cmd (map of_char ''comment'' @ [KEY_ESC]) (e, Find_init)))
     = Inr (0, 0, 0, 0, replicate 2 HL_NORMAL @ replicate 7 HL_MATCH)"
  by code_simp

end
